theory Spec2Isabelle
  imports Main "HOL-Library.Word"
begin

unbundle bit_operations_syntax

section \<open>The byte source\<close>

text \<open>
  The reader pulls its bytes from a Go \<^verbatim>\<open>io.Reader\<close>, which is not part of the
  repository. The tests drive it with \<^verbatim>\<open>bytes.NewReader(b)\<close>; the source modelled here
  behaves as that reader does: \<^verbatim>\<open>Read(p)\<close> copies \<open>min (len p) (remaining)\<close> bytes and
  returns \<^verbatim>\<open>(0, io.EOF)\<close> once the read position has reached the end;
  \<^verbatim>\<open>Seek(off, io.SeekCurrent)\<close> moves the read position, also past the end, and refuses a
  negative position. The flags say which optional interfaces the source has
  (\<^verbatim>\<open>io.Seeker\<close>, \<^verbatim>\<open>io.Closer\<close>); \<open>closed\<close> records that \<^verbatim>\<open>Close\<close> was called on it.
\<close>

type_synonym byte = "8 word"

datatype io_error = EOF | ErrNegativePosition

record source =
  content :: "byte list"
  rpos :: int
  seekable :: bool
  closable :: bool
  closed :: bool

definition src_Read :: "source \<Rightarrow> nat \<Rightarrow> byte list \<times> io_error option \<times> source" where
  "src_Read s n =
     (if int (length (content s)) \<le> rpos s then ([], Some EOF, s)
      else (let bs = take n (drop (nat (rpos s)) (content s))
            in (bs, None, s\<lparr>rpos := rpos s + int (length bs)\<rparr>)))"

definition src_Seek :: "source \<Rightarrow> int \<Rightarrow> io_error + int \<times> source" where
  "src_Seek s off =
     (let abs = rpos s + off
      in if abs < 0 then Inl ErrNegativePosition else Inr (abs, s\<lparr>rpos := abs\<rparr>))"

definition src_Close :: "source \<Rightarrow> source" where
  "src_Close s = s\<lparr>closed := True\<rparr>"

section \<open>The reader\<close>

text \<open>
  Go's \<^verbatim>\<open>int\<close> is modelled as \<open>int\<close>: positions count bits of a byte slice held in
  memory and stay far below \<open>2 ^ 63\<close>. On \<open>int\<close>, \<^verbatim>\<open>x >> 3\<close> is \<open>x div 8\<close> and
  \<^verbatim>\<open>x & 7\<close> is \<open>x mod 8\<close> (both round as two's complement does). Every panic of the
  source is a value of \<open>error\<close>; \<open>IndexOutOfRange\<close> is Go's run-time panic for an index
  or a slice outside a byte slice, \<open>StackIndexOutOfRange\<close> the same panic on the stack of
  chunk targets.
\<close>

datatype error =
    ConfigurationError
  | ChunkOverrun
  | UnexpectedEnd
  | UnderlyingIOError io_error
  | SkipFailed int int
  | IndexOutOfRange
  | StackIndexOutOfRange
  | NegativeShift
  | NegativeLength
  | NilSource

abbreviation sled :: nat where "sled \<equiv> 8"
abbreviation sledMask :: int where "sledMask \<equiv> 7"
abbreviation sledBits :: int where "sledBits \<equiv> 64"

record BitReader =
  underlying :: "source option"
  buffer :: "byte list"
  offset :: int
  bitsInBuffer :: int
  lazyPosition :: int
  chunkTargets :: "int list"
  endReached :: bool

text \<open>The zero value \<^verbatim>\<open>new(bitread.BitReader)\<close>.\<close>

definition new_BitReader :: BitReader where
  "new_BitReader =
     \<lparr>underlying = None, buffer = [], offset = 0, bitsInBuffer = 0, lazyPosition = 0,
      chunkTargets = [], endReached = False\<rparr>"

subsection \<open>The stack of chunk targets\<close>

definition push :: "int list \<Rightarrow> int \<Rightarrow> int list" where
  "push s v = s @ [v]"

definition pop :: "int list \<Rightarrow> error + int list \<times> int" where
  "pop s = (if s = [] then Inl StackIndexOutOfRange else Inr (butlast s, last s))"

definition top :: "int list \<Rightarrow> error + int" where
  "top s = (if s = [] then Inl StackIndexOutOfRange else Inr (last s))"

subsection \<open>Positions, open and close\<close>

definition LazyPosition :: "BitReader \<Rightarrow> int" where
  "LazyPosition r = lazyPosition r"

definition ActualPosition :: "BitReader \<Rightarrow> int" where
  "ActualPosition r = lazyPosition r + offset r"

text \<open>
  \<^verbatim>\<open>OpenWithBuffer\<close> sets \<open>endReached\<close>, \<open>underlying\<close>, \<open>buffer\<close> and \<open>bitsInBuffer\<close>
  and nothing else. The buffer is a slice whose capacity is its length, as
  \<^verbatim>\<open>make([]byte, bufferSize)\<close> gives.
\<close>

definition OpenWithBuffer :: "BitReader \<Rightarrow> source \<Rightarrow> byte list \<Rightarrow> error + BitReader" where
  "OpenWithBuffer r u buf =
     (if int (length buf) mod 8 \<noteq> 0 then Inl ConfigurationError
      else if length buf \<le> sled * 2 then Inl ConfigurationError
      else (case src_Read u (length buf) of
              (bs, Some e, u') \<Rightarrow> Inl (UnderlyingIOError e)
            | (bs, None, u') \<Rightarrow>
                (let bits = int (length bs) * 8 - sledBits
                 in Inr (r\<lparr>endReached := False, underlying := Some u',
                           buffer := bs @ drop (length bs) buf,
                           bitsInBuffer := (if bits < 0 then bits + sledBits else bits)\<rparr>))))"

definition Open :: "BitReader \<Rightarrow> source \<Rightarrow> int \<Rightarrow> error + BitReader" where
  "Open r u bufferSize =
     (if bufferSize < 0 then Inl NegativeLength
      else OpenWithBuffer r u (replicate (nat bufferSize) 0))"

text \<open>
  \<^verbatim>\<open>Close\<close> returns right after closing a source that is an \<^verbatim>\<open>io.ReadCloser\<close>; the
  assignments that reset the reader are reached only for a source that is not.
\<close>

definition Close :: "BitReader \<Rightarrow> BitReader" where
  "Close r =
     (case underlying r of
        Some u \<Rightarrow>
          if closable u then r\<lparr>underlying := Some (src_Close u)\<rparr>
          else r\<lparr>underlying := None, buffer := [], offset := 0, bitsInBuffer := 0,
                 chunkTargets := [], lazyPosition := 0\<rparr>
      | None \<Rightarrow>
          r\<lparr>underlying := None, buffer := [], offset := 0, bitsInBuffer := 0,
            chunkTargets := [], lazyPosition := 0\<rparr>)"

subsection \<open>Refill and advance\<close>

text \<open>
  \<^verbatim>\<open>copy(r.buffer[0:sled], r.buffer[k:k+sled])\<close> panics unless both slices lie inside
  the buffer; the two may overlap, and \<^verbatim>\<open>copy\<close> then behaves as if the source bytes were
  taken first.
\<close>

definition refillBuffer :: "BitReader \<Rightarrow> error + BitReader" where
  "refillBuffer r =
     (let k = bitsInBuffer r div 8
      in if length (buffer r) < sled \<or> k < 0 \<or> int (length (buffer r)) < k + int sled
         then Inl IndexOutOfRange
         else
           (let buf1 = take sled (drop (nat k) (buffer r)) @ drop sled (buffer r);
                r1 = r\<lparr>buffer := buf1, offset := offset r - bitsInBuffer r,
                       lazyPosition := lazyPosition r + bitsInBuffer r\<rparr>
            in case underlying r of
                 None \<Rightarrow> Inl NilSource
               | Some u \<Rightarrow>
                   (case src_Read u (length buf1 - sled) of (bs, err, u') \<Rightarrow>
                     (let r2 = r1\<lparr>underlying := Some u',
                                  buffer := take sled buf1 @ bs @ drop (sled + length bs) buf1,
                                  bitsInBuffer := int (length bs) * 8\<rparr>
                      in case err of
                           None \<Rightarrow> Inr r2
                         | Some EOF \<Rightarrow>
                             if endReached r2 then Inl UnexpectedEnd
                             else Inr (r2\<lparr>bitsInBuffer := bitsInBuffer r2 + sledBits,
                                         endReached := True\<rparr>)
                         | Some e \<Rightarrow> Inl (UnderlyingIOError e)))))"

text \<open>
  The loop of \<^verbatim>\<open>advance\<close> refills until the offset is inside the buffered bits. Nothing
  in the loop itself bounds the number of rounds, so not returning is the value \<open>None\<close>.
\<close>

partial_function (option) advance_loop :: "BitReader \<Rightarrow> (error + BitReader) option" where
  "advance_loop r =
     (if bitsInBuffer r < offset r
      then (case refillBuffer r of
              Inl e \<Rightarrow> Some (Inl e)
            | Inr r' \<Rightarrow> advance_loop r')
      else Some (Inr r))"

declare advance_loop.simps [code]

definition advance :: "BitReader \<Rightarrow> int \<Rightarrow> (error + BitReader) option" where
  "advance r bits = advance_loop (r\<lparr>offset := offset r + bits\<rparr>)"

subsection \<open>Decoding\<close>

text \<open>A result paired with the reader after the call.\<close>

definition returning :: "'a \<Rightarrow> (error + BitReader) option \<Rightarrow> (error + 'a \<times> BitReader) option" where
  "returning v x = map_option (map_sum id (Pair v)) x"

definition ReadBit :: "BitReader \<Rightarrow> (error + bool \<times> BitReader) option" where
  "ReadBit r =
     (let i = offset r div 8
      in if i < 0 \<or> int (length (buffer r)) \<le> i then Some (Inl IndexOutOfRange)
         else returning (bit (buffer r ! nat i) (nat (offset r mod 8))) (advance r 1))"

text \<open>\<^verbatim>\<open>binary.LittleEndian.Uint64(b)\<close>, which panics on fewer than eight bytes.\<close>

definition le_uint64 :: "byte list \<Rightarrow> 64 word" where
  "le_uint64 b =
     ucast (b ! 0) OR push_bit 8 (ucast (b ! 1)) OR push_bit 16 (ucast (b ! 2)) OR
     push_bit 24 (ucast (b ! 3)) OR push_bit 32 (ucast (b ! 4)) OR push_bit 40 (ucast (b ! 5)) OR
     push_bit 48 (ucast (b ! 6)) OR push_bit 56 (ucast (b ! 7))"

definition load64 :: "BitReader \<Rightarrow> int \<Rightarrow> error + 64 word" where
  "load64 r i =
     (if i < 0 \<or> int (length (buffer r)) < i + 8 then Inl IndexOutOfRange
      else Inr (le_uint64 (drop (nat i) (buffer r))))"

text \<open>
  \<^verbatim>\<open>ReadInt\<close> refills once, with \<^verbatim>\<open>if\<close>, where \<^verbatim>\<open>advance\<close> loops. The mask
  \<^verbatim>\<open>(1 << n) - 1\<close> is computed in \<^verbatim>\<open>uint\<close>; a negative shift count panics.
\<close>

definition ReadInt :: "BitReader \<Rightarrow> int \<Rightarrow> error + 64 word \<times> BitReader" where
  "ReadInt r n =
     (let byteIndex = offset r div 8; bitOffset = offset r mod 8
      in case load64 r byteIndex of
           Inl e \<Rightarrow> Inl e
         | Inr val \<Rightarrow>
             if n < 0 then Inl NegativeShift
             else
               (let res = drop_bit (nat bitOffset) val AND (push_bit (nat n) 1 - 1);
                    r1 = r\<lparr>offset := offset r + n\<rparr>
                in if bitsInBuffer r1 < offset r1
                   then (case refillBuffer r1 of Inl e \<Rightarrow> Inl e | Inr r2 \<Rightarrow> Inr (res, r2))
                   else Inr (res, r1)))"

definition ReadBitsToByte :: "BitReader \<Rightarrow> int \<Rightarrow> error + byte \<times> BitReader" where
  "ReadBitsToByte r n = map_sum id (map_prod ucast id) (ReadInt r n)"

definition readByteInternal :: "BitReader \<Rightarrow> bool \<Rightarrow> (error + byte \<times> BitReader) option" where
  "readByteInternal r bitLevel =
     (if \<not> bitLevel
      then (let i = offset r div 8
            in if i < 0 \<or> int (length (buffer r)) \<le> i then Some (Inl IndexOutOfRange)
               else returning (buffer r ! nat i) (advance r 8))
      else Some (ReadBitsToByte r 8))"

definition ReadSingleByte :: "BitReader \<Rightarrow> (error + byte \<times> BitReader) option" where
  "ReadSingleByte r = readByteInternal r (offset r mod 8 \<noteq> 0)"

text \<open>The loop \<^verbatim>\<open>for i := 0; i < n; i++ { out = append(out, r.readByteInternal(bitLevel)) }\<close>.\<close>

fun read_loop :: "bool \<Rightarrow> nat \<Rightarrow> byte list \<Rightarrow> BitReader \<Rightarrow> (error + byte list \<times> BitReader) option" where
  "read_loop bitLevel 0 out r = Some (Inr (out, r))"
| "read_loop bitLevel (Suc k) out r =
     (case readByteInternal r bitLevel of
        None \<Rightarrow> None
      | Some (Inl e) \<Rightarrow> Some (Inl e)
      | Some (Inr (b, r')) \<Rightarrow> read_loop bitLevel k (out @ [b]) r')"

definition ReadBytesInto :: "BitReader \<Rightarrow> byte list \<Rightarrow> int \<Rightarrow> (error + byte list \<times> BitReader) option" where
  "ReadBytesInto r out n =
     (let bitLevel = (offset r mod 8 \<noteq> 0)
      in if \<not> bitLevel \<and> offset r + n * 8 \<le> bitsInBuffer r
         then (let lo = offset r div 8; hi = offset r div 8 + n
               in if lo < 0 \<or> hi < lo \<or> int (length (buffer r)) < hi then Some (Inl IndexOutOfRange)
                  else returning (out @ take (nat n) (drop (nat lo) (buffer r))) (advance r (n * 8)))
         else read_loop bitLevel (nat n) out r)"

definition ReadBytes :: "BitReader \<Rightarrow> int \<Rightarrow> (error + byte list \<times> BitReader) option" where
  "ReadBytes r n = (if n < 0 then Some (Inl NegativeLength) else ReadBytesInto r [] n)"

text \<open>
  \<^verbatim>\<open>ReadBits\<close>: whole bytes through \<^verbatim>\<open>readByteInternal\<close>, the rest through
  \<^verbatim>\<open>ReadBitsToByte(n & 7)\<close>. For \<open>-8 < n < 0\<close> the slice is empty, the last read still
  runs and its store at index \<open>-1\<close> panics.
\<close>

definition ReadBits :: "BitReader \<Rightarrow> int \<Rightarrow> (error + byte list \<times> BitReader) option" where
  "ReadBits r n =
     (if (n + 7) div 8 < 0 then Some (Inl NegativeLength)
      else
        (case read_loop (offset r mod 8 \<noteq> 0) (nat (n div 8)) [] r of
           None \<Rightarrow> None
         | Some (Inl e) \<Rightarrow> Some (Inl e)
         | Some (Inr (bs, r1)) \<Rightarrow>
             if n mod 8 \<noteq> 0
             then (case ReadBitsToByte r1 (n mod 8) of
                     Inl e \<Rightarrow> Some (Inl e)
                   | Inr (b, r2) \<Rightarrow>
                       if n < 0 then Some (Inl IndexOutOfRange) else Some (Inr (bs @ [b], r2)))
             else Some (Inr (bs, r1))))"

text \<open>A Go string is a sequence of bytes; \<^verbatim>\<open>bytes.IndexByte(b, 0)\<close> finds the first zero.\<close>

definition ReadCString :: "BitReader \<Rightarrow> int \<Rightarrow> (error + string \<times> BitReader) option" where
  "ReadCString r n =
     map_option (map_sum id (map_prod (\<lambda>b. map (\<lambda>c. char_of (unat c)) (takeWhile (\<lambda>c. c \<noteq> 0) b)) id))
       (ReadBytes r n)"

text \<open>
  \<^verbatim>\<open>ReadSignedInt\<close> loads at \<^verbatim>\<open>r.offset>>3&^3\<close>, the byte index rounded down to a
  multiple of four. Both shift counts are computed in \<^verbatim>\<open>uint\<close>, where they wrap; a shift
  by 64 or more clears the word (\<^verbatim>\<open><<\<close>) or fills it with the sign (\<^verbatim>\<open>>>\<close> on
  \<^verbatim>\<open>int64\<close>).
\<close>

definition ReadSignedInt :: "BitReader \<Rightarrow> int \<Rightarrow> (error + int \<times> BitReader) option" where
  "ReadSignedInt r n =
     (case load64 r (offset r div 8 - offset r div 8 mod 4) of
        Inl e \<Rightarrow> Some (Inl e)
      | Inr val \<Rightarrow>
          (let s1 = unat (word_of_int (64 - offset r mod 32 - n) :: 64 word);
               s2 = unat (64 - word_of_int n :: 64 word);
               res = sint (signed_drop_bit s2 (push_bit s1 val))
           in returning res (advance r n)))"

subsection \<open>Chunks and skipping\<close>

definition BeginChunk :: "BitReader \<Rightarrow> int \<Rightarrow> BitReader" where
  "BeginChunk r n = r\<lparr>chunkTargets := push (chunkTargets r) (ActualPosition r + n)\<rparr>"

definition ChunkFinished :: "BitReader \<Rightarrow> error + bool" where
  "ChunkFinished r = map_sum id (\<lambda>t. t \<le> ActualPosition r) (top (chunkTargets r))"

text \<open>
  \<^verbatim>\<open>Skip\<close> seeks when the source is an \<^verbatim>\<open>io.Seeker\<close> and the skip reaches past the
  buffered bits and the sled; any error of the read after the seek, \<^verbatim>\<open>io.EOF\<close> too, is
  a panic there.
\<close>

definition Skip :: "BitReader \<Rightarrow> int \<Rightarrow> (error + BitReader) option" where
  "Skip r n =
     (let bufferBits = bitsInBuffer r - offset r
      in case underlying r of
           None \<Rightarrow> advance r n
         | Some u \<Rightarrow>
             if bufferBits + sledBits < n \<and> seekable u
             then
               (let unbufferedSkipBits = n - bufferBits
                in case src_Seek u (unbufferedSkipBits div 8 - int sled) of
                     Inl e \<Rightarrow> Some (Inl (UnderlyingIOError e))
                   | Inr (globalOffset, u1) \<Rightarrow>
                       (case src_Read u1 (length (buffer r)) of
                          (bs, Some e, u2) \<Rightarrow> Some (Inl (UnderlyingIOError e))
                        | (bs, None, u2) \<Rightarrow>
                            (let newBytes = int (length bs);
                                 bits = newBytes * 8 - sledBits
                             in Some (Inr (r\<lparr>lazyPosition := globalOffset * 8,
                                             underlying := Some u2,
                                             buffer := bs @ drop (length bs) (buffer r),
                                             offset := unbufferedSkipBits mod 8,
                                             bitsInBuffer :=
                                               (if newBytes \<le> int sled then bits + sledBits else bits)\<rparr>)))))
             else advance r n)"

definition EndChunk :: "BitReader \<Rightarrow> (error + BitReader) option" where
  "EndChunk r =
     (case pop (chunkTargets r) of
        Inl e \<Rightarrow> Some (Inl e)
      | Inr (s, target) \<Rightarrow>
          (let r1 = r\<lparr>chunkTargets := s\<rparr>;
               delta = target - ActualPosition r1
           in if delta < 0 then Some (Inl ChunkOverrun)
              else
                (case (if 0 < delta then Skip r1 delta else Some (Inr r1)) of
                   None \<Rightarrow> None
                 | Some (Inl e) \<Rightarrow> Some (Inl e)
                 | Some (Inr r2) \<Rightarrow>
                     if target \<noteq> ActualPosition r2
                     then Some (Inl (SkipFailed target (ActualPosition r2)))
                     else Some (Inr r2))))"

section \<open>Auxiliary definitions\<close>

definition fuel :: "BitReader \<Rightarrow> nat" where
  "fuel r = (case underlying r of
               None \<Rightarrow> 0
             | Some u \<Rightarrow> 2 * nat (int (length (content u)) - rpos u) + (if endReached r then 0 else 1))"

definition core :: "source \<Rightarrow> BitReader \<Rightarrow> bool" where
  "core s r \<longleftrightarrow>
     (\<exists>u base k P m.
        underlying r = Some u \<and> content u = content s \<and> seekable u = seekable s \<and>
        rpos u = int P \<and> P \<le> length (content s) \<and>
        lazyPosition r = 8 * int base \<and> bitsInBuffer r = 8 * int k \<and>
        length (buffer r) = 8 * m \<and> 3 \<le> m \<and> k + 8 \<le> length (buffer r) \<and>
        (\<forall>i. base + i < P \<longrightarrow> buffer r ! i = content s ! (base + i)) \<and>
        (if endReached r
         then P = length (content s) \<and> k = 8 \<and>
              (base + 8 = length (content s) \<or> base = length (content s))
         else (base + k + 8 = P \<and> (k + 8 = length (buffer r) \<or> P = length (content s))) \<or>
              (base + k = P \<and> P = length (content s) \<and> k \<le> 8)))"

definition advance_post :: "source \<Rightarrow> BitReader \<Rightarrow> (error + BitReader) option \<Rightarrow> bool" where
  "advance_post s r x \<longleftrightarrow>
     (case x of
        None \<Rightarrow> False
      | Some (Inl e) \<Rightarrow> e = UnexpectedEnd \<and> 8 * int (length (content s)) < ActualPosition r
      | Some (Inr r') \<Rightarrow>
          core s r' \<and> 0 \<le> offset r' \<and> offset r' \<le> bitsInBuffer r' \<and>
          ActualPosition r' = ActualPosition r \<and> chunkTargets r' = chunkTargets r \<and>
          length (buffer r') = length (buffer r))"

definition Inv :: "source \<Rightarrow> BitReader \<Rightarrow> bool" where
  "Inv s r \<longleftrightarrow> core s r \<and> 0 \<le> offset r \<and> offset r \<le> max (bitsInBuffer r) 32"

definition adv_post :: "source \<Rightarrow> BitReader \<Rightarrow> int \<Rightarrow> (error + BitReader) option \<Rightarrow> bool" where
  "adv_post s r n x \<longleftrightarrow>
     (case x of
        None \<Rightarrow> False
      | Some (Inl e) \<Rightarrow> e = UnexpectedEnd \<and> 8 * int (length (content s)) < ActualPosition r + n
      | Some (Inr r') \<Rightarrow>
          Inv s r' \<and> offset r' \<le> bitsInBuffer r' \<and>
          ActualPosition r' = ActualPosition r + n \<and> chunkTargets r' = chunkTargets r \<and>
          length (buffer r') = length (buffer r))"

definition rd_post :: "source \<Rightarrow> BitReader \<Rightarrow> int \<Rightarrow> (error + 'a \<times> BitReader) option \<Rightarrow> bool" where
  "rd_post s r n x \<longleftrightarrow>
     (case x of
        None \<Rightarrow> False
      | Some (Inl e) \<Rightarrow> e = UnexpectedEnd \<and> 8 * int (length (content s)) < ActualPosition r + n
      | Some (Inr (v, r')) \<Rightarrow>
          Inv s r' \<and> ActualPosition r' = ActualPosition r + n \<and>
          chunkTargets r' = chunkTargets r \<and> length (buffer r') = length (buffer r))"

definition skip_post :: "source \<Rightarrow> BitReader \<Rightarrow> int \<Rightarrow> (error + BitReader) option \<Rightarrow> bool" where
  "skip_post s r n x \<longleftrightarrow>
     (case x of
        None \<Rightarrow> False
      | Some (Inl e) \<Rightarrow>
          (e = UnexpectedEnd \<and> 8 * int (length (content s)) < ActualPosition r + n) \<or>
          (e = UnderlyingIOError EOF \<and> 8 * int (length (content s)) \<le> ActualPosition r + n \<and>
           seekable s \<and> bitsInBuffer r - offset r + sledBits < n)
      | Some (Inr r') \<Rightarrow>
          Inv s r' \<and> ActualPosition r' = ActualPosition r + n \<and>
          chunkTargets r' = chunkTargets r \<and> length (buffer r') = length (buffer r))"

datatype op =
    OpReadBit
  | OpReadBits int
  | OpReadSingleByte
  | OpReadBitsToByte int
  | OpReadInt int
  | OpReadBytes int
  | OpReadCString int
  | OpReadSignedInt int
  | OpBeginChunk int
  | OpEndChunk
  | OpChunkFinished
  | OpSkip int
  | OpActualPosition
  | OpLazyPosition

datatype val =
    VUnit
  | VBool bool
  | VByte byte
  | VBytes "byte list"
  | VUint "64 word"
  | VInt int
  | VString string

definition tagged :: "('a \<Rightarrow> val) \<Rightarrow> (error + 'a \<times> BitReader) option \<Rightarrow> (error + val \<times> BitReader) option" where
  "tagged f x = map_option (map_sum id (map_prod f id)) x"

fun step :: "BitReader \<Rightarrow> op \<Rightarrow> (error + val \<times> BitReader) option" where
  "step r OpReadBit = tagged VBool (ReadBit r)"
| "step r (OpReadBits n) = tagged VBytes (ReadBits r n)"
| "step r OpReadSingleByte = tagged VByte (ReadSingleByte r)"
| "step r (OpReadBitsToByte n) = tagged VByte (Some (ReadBitsToByte r n))"
| "step r (OpReadInt n) = tagged VUint (Some (ReadInt r n))"
| "step r (OpReadBytes n) = tagged VBytes (ReadBytes r n)"
| "step r (OpReadCString n) = tagged VString (ReadCString r n)"
| "step r (OpReadSignedInt n) = tagged VInt (ReadSignedInt r n)"
| "step r (OpBeginChunk n) = Some (Inr (VUnit, BeginChunk r n))"
| "step r OpEndChunk = returning VUnit (EndChunk r)"
| "step r OpChunkFinished = Some (map_sum id (\<lambda>b. (VBool b, r)) (ChunkFinished r))"
| "step r (OpSkip n) = returning VUnit (Skip r n)"
| "step r OpActualPosition = Some (Inr (VInt (ActualPosition r), r))"
| "step r OpLazyPosition = Some (Inr (VInt (LazyPosition r), r))"

fun run :: "BitReader \<Rightarrow> op list \<Rightarrow> (error + val list \<times> BitReader) option" where
  "run r [] = Some (Inr ([], r))"
| "run r (c # cs) =
     (case step r c of
        None \<Rightarrow> None
      | Some (Inl e) \<Rightarrow> Some (Inl e)
      | Some (Inr (v, r')) \<Rightarrow>
          (case run r' cs of
             None \<Rightarrow> None
           | Some (Inl e) \<Rightarrow> Some (Inl e)
           | Some (Inr (vs, r'')) \<Rightarrow> Some (Inr (v # vs, r''))))"

fun valid_op :: "op \<Rightarrow> bool" where
  "valid_op (OpReadBits n) = (0 \<le> n)"
| "valid_op (OpReadBitsToByte n) = (0 \<le> n \<and> n \<le> 8)"
| "valid_op (OpReadInt n) = (0 \<le> n \<and> n \<le> 32)"
| "valid_op (OpReadBytes n) = (0 \<le> n)"
| "valid_op (OpReadCString n) = (0 \<le> n)"
| "valid_op (OpReadSignedInt n) = (0 \<le> n \<and> n \<le> 32)"
| "valid_op (OpSkip n) = (0 \<le> n)"
| "valid_op _ = True"

definition step_post :: "source \<Rightarrow> BitReader \<Rightarrow> (error + 'a \<times> BitReader) option \<Rightarrow> bool" where
  "step_post s r x \<longleftrightarrow>
     (case x of
        None \<Rightarrow> False
      | Some (Inl e) \<Rightarrow>
          e = UnexpectedEnd \<or> e = UnderlyingIOError EOF \<or> e = ChunkOverrun \<or>
          e = StackIndexOutOfRange
      | Some (Inr (v, r')) \<Rightarrow> Inv s r' \<and> length (buffer r') = length (buffer r))"

definition end_post :: "source \<Rightarrow> BitReader \<Rightarrow> (error + BitReader) option \<Rightarrow> bool" where
  "end_post s r x \<longleftrightarrow>
     (case x of
        None \<Rightarrow> False
      | Some (Inl e) \<Rightarrow>
          (e = StackIndexOutOfRange \<and> chunkTargets r = []) \<or>
          (chunkTargets r \<noteq> [] \<and>
            (e = ChunkOverrun \<and> last (chunkTargets r) < ActualPosition r \<or>
             e = UnexpectedEnd \<and> 8 * int (length (content s)) < last (chunkTargets r) \<or>
             e = UnderlyingIOError EOF \<and> 8 * int (length (content s)) \<le> last (chunkTargets r) \<and>
               seekable s \<and>
               bitsInBuffer r - offset r + sledBits < last (chunkTargets r) - ActualPosition r))
      | Some (Inr r') \<Rightarrow>
          chunkTargets r \<noteq> [] \<and> ActualPosition r \<le> last (chunkTargets r) \<and>
          Inv s r' \<and> ActualPosition r' = last (chunkTargets r) \<and>
          chunkTargets r' = butlast (chunkTargets r) \<and> length (buffer r') = length (buffer r))"

fun is_read :: "op \<Rightarrow> bool" where
  "is_read OpReadBit = True"
| "is_read (OpReadBits n) = True"
| "is_read OpReadSingleByte = True"
| "is_read (OpReadBitsToByte n) = True"
| "is_read (OpReadInt n) = True"
| "is_read (OpReadBytes n) = True"
| "is_read (OpReadCString n) = True"
| "is_read (OpReadSignedInt n) = True"
| "is_read _ = False"

fun width :: "op \<Rightarrow> int" where
  "width OpReadBit = 1"
| "width (OpReadBits n) = n"
| "width OpReadSingleByte = 8"
| "width (OpReadBitsToByte n) = n"
| "width (OpReadInt n) = n"
| "width (OpReadBytes n) = 8 * n"
| "width (OpReadCString n) = 8 * n"
| "width (OpReadSignedInt n) = n"
| "width _ = 0"

definition NewReader :: "byte list \<Rightarrow> source" where
  "NewReader b = \<lparr>content = b, rpos = 0, seekable = True, closable = False, closed = False\<rparr>"

definition OnlyReader :: "source \<Rightarrow> source" where
  "OnlyReader s = s\<lparr>seekable := False, closable := False\<rparr>"

definition NopCloser :: "source \<Rightarrow> source" where
  "NopCloser s = s\<lparr>seekable := False, closable := True\<rparr>"

fun depth_change :: "op \<Rightarrow> int" where
  "depth_change (OpBeginChunk n) = 1"
| "depth_change OpEndChunk = - 1"
| "depth_change _ = 0"

definition is_ok :: "(error + 'a) option \<Rightarrow> bool" where
  "is_ok x = (case x of Some (Inr _) \<Rightarrow> True | _ \<Rightarrow> False)"

text \<open>The bytes \<open>0, 1, 2, \<dots>\<close> that the repository's tests read.\<close>

definition bytes_upto :: "nat \<Rightarrow> byte list" where
  "bytes_upto n = map of_nat [0..<n]"

text \<open>A caller that opens a reader, runs calls on it and keeps the results.\<close>

definition reopen :: "BitReader \<Rightarrow> source \<Rightarrow> int \<Rightarrow> BitReader" where
  "reopen r s n = (case Open r s n of Inr r' \<Rightarrow> r' | Inl e \<Rightarrow> r)"

definition opened :: "source \<Rightarrow> int \<Rightarrow> BitReader" where
  "opened s n = reopen new_BitReader s n"

definition after :: "BitReader \<Rightarrow> op list \<Rightarrow> BitReader" where
  "after r cs = (case run r cs of Some (Inr (vs, r')) \<Rightarrow> r' | _ \<Rightarrow> r)"

definition results :: "BitReader \<Rightarrow> op list \<Rightarrow> (error + val list) option" where
  "results r cs = map_option (map_sum id fst) (run r cs)"

section \<open>Properties\<close>

lemma refill_end:
  assumes "core s r" "endReached r"
  shows "refillBuffer r = Inl UnexpectedEnd"
  using assms
  by (auto simp: core_def refillBuffer_def src_Read_def Let_def)

lemma refill_ok:
  assumes "core s r" "\<not> endReached r"
  shows "\<exists>r'. refillBuffer r = Inr r' \<and> core s r' \<and>
           offset r' = offset r - bitsInBuffer r \<and>
           lazyPosition r' = lazyPosition r + bitsInBuffer r \<and>
           chunkTargets r' = chunkTargets r \<and>
           length (buffer r') = length (buffer r) \<and>
           fuel r' < fuel r \<and>
           (bitsInBuffer r < 128 \<longrightarrow> bitsInBuffer r' = 64)"
proof -
  from assms obtain u base k P m where
    u: "underlying r = Some u" "content u = content s" "seekable u = seekable s"
       "rpos u = int P" "P \<le> length (content s)"
    and pos: "lazyPosition r = 8 * int base" "bitsInBuffer r = 8 * int k"
    and len: "length (buffer r) = 8 * m" "3 \<le> m" "k + 8 \<le> length (buffer r)"
    and cont: "\<forall>i. base + i < P \<longrightarrow> buffer r ! i = content s ! (base + i)"
    and mode0: "(if endReached r
         then P = length (content s) \<and> k = 8 \<and>
              (base + 8 = length (content s) \<or> base = length (content s))
         else (base + k + 8 = P \<and> (k + 8 = length (buffer r) \<or> P = length (content s))) \<or>
              (base + k = P \<and> P = length (content s) \<and> k \<le> 8))"
    unfolding core_def by blast
  from mode0 assms(2) have mode: "(base + k + 8 = P \<and> (k + 8 = length (buffer r) \<or> P = length (content s))) \<or>
              (base + k = P \<and> P = length (content s) \<and> k \<le> 8)" by simp
  let ?d = "content s"
  let ?buf1 = "take sled (drop k (buffer r)) @ drop sled (buffer r)"
  have l1: "length ?buf1 = length (buffer r)" using len by simp
  show ?thesis
  proof (cases "P = length ?d")
    case True
    let ?r' = "r\<lparr>buffer := ?buf1, offset := offset r - bitsInBuffer r,
                 lazyPosition := lazyPosition r + bitsInBuffer r,
                 underlying := Some u, bitsInBuffer := 64, endReached := True\<rparr>"
    have eq: "refillBuffer r = Inr ?r'"
      using u pos len True assms(2)
      by (simp add: refillBuffer_def src_Read_def Let_def)
    have c: "core s ?r'"
      unfolding core_def
      apply (rule exI[of _ u], rule exI[of _ "base + k"], rule exI[of _ 8], rule exI[of _ P], rule exI[of _ m])
      using u pos len True mode cont
      by (auto simp: nth_append add.assoc)
    have f: "fuel ?r' < fuel r" using u True assms(2) by (simp add: fuel_def)
    show ?thesis
    proof (intro exI[of _ ?r'] conjI)
      show "refillBuffer r = Inr ?r'" by (rule eq)
      show "core s ?r'" by (rule c)
      show "length (buffer ?r') = length (buffer r)" using l1 by simp
      show "fuel ?r' < fuel r" by (rule f)
    qed simp_all
  next
    case False
    then have PL: "P < length ?d" using u by simp
    with mode have S: "base + k + 8 = P" "k + 8 = length (buffer r)" by auto
    define bs where "bs = take (length (buffer r) - 8) (drop P ?d)"
    define n where "n = length bs"
    let ?u' = "u\<lparr>rpos := int P + int n\<rparr>"
    let ?r' = "r\<lparr>buffer := take sled ?buf1 @ bs @ drop (sled + n) ?buf1,
                 offset := offset r - bitsInBuffer r,
                 lazyPosition := lazyPosition r + bitsInBuffer r,
                 underlying := Some ?u', bitsInBuffer := int n * 8\<rparr>"
    have n0: "n = min (length (buffer r) - 8) (length ?d - P)"
      by (simp add: n_def bs_def)
    have n1: "1 \<le> n" "n \<le> length (buffer r) - 8" "P + n \<le> length ?d"
      "n + 8 = length (buffer r) \<or> P + n = length ?d"
      using PL len unfolding n0 by linarith+
    have bsn: "bs ! j = ?d ! (P + j)" if "j < n" for j
      using that PL unfolding n_def bs_def by simp
    have L8: "8 \<le> length (buffer r)" using len by simp
    have eq: "refillBuffer r = Inr ?r'"
      using u pos len(3) L8 PL unfolding n_def bs_def
      by (simp add: refillBuffer_def src_Read_def Let_def l1 add.commute)
    define A where "A = take sled (drop k (buffer r))"
    have lenA: "length A = 8" using len by (simp add: A_def)
    have nb: "buffer ?r' = A @ bs @ drop (8 + n) (buffer r)"
      using lenA by (simp add: A_def [symmetric] add.commute)
    have cont': "buffer ?r' ! i = ?d ! (base + k + i)" if "base + k + i < P + n" for i
    proof (cases "i < 8")
      case True
      then have "buffer ?r' ! i = A ! i"
        unfolding nb using lenA by (simp add: nth_append)
      also have "\<dots> = buffer r ! (k + i)"
        using True len by (simp add: A_def)
      also have "\<dots> = ?d ! (base + (k + i))"
        using cont S True by simp
      finally show ?thesis by (simp add: add.assoc)
    next
      case False
      then have i: "8 \<le> i" "i - 8 < n" using that S by auto
      have "buffer ?r' ! i = (bs @ drop (8 + n) (buffer r)) ! (i - 8)"
        unfolding nb using lenA False by (simp add: nth_append)
      also have "\<dots> = bs ! (i - 8)" using i by (simp add: nth_append n_def)
      also have "\<dots> = ?d ! (P + (i - 8))" using i bsn by simp
      also have "P + (i - 8) = base + k + i" using i S by simp
      finally show ?thesis .
    qed
    have lr: "length (buffer ?r') = length (buffer r)"
      unfolding nb using lenA n1 len by (simp add: n_def [symmetric])
    have c: "core s ?r'"
      unfolding core_def
      apply (rule exI[of _ ?u'], rule exI[of _ "base + k"], rule exI[of _ n], rule exI[of _ "P + n"], rule exI[of _ m])
      apply (intro conjI)
      subgoal using u by simp
      subgoal using u by simp
      subgoal using u by simp
      subgoal by simp
      subgoal using n1 by simp
      subgoal using pos by simp
      subgoal by simp
      subgoal using len lr by (simp only:)
      subgoal using len by simp
      subgoal using n1 len unfolding lr by simp
      subgoal using cont' by blast
      subgoal using assms(2) S n1 len unfolding lr by simp
      done
    have f1: "fuel r = 2 * (length ?d - P) + 1" using u assms(2) by (simp add: fuel_def)
    have f2: "fuel ?r' = 2 * (length ?d - (P + n)) + 1" using u assms(2) by (simp add: fuel_def)
    have f: "fuel ?r' < fuel r" unfolding f1 f2 using n1 PL by linarith
    have b: "\<not> bitsInBuffer r < 128" using pos S len by simp
    show ?thesis
    proof (intro exI[of _ ?r'] conjI)
      show "refillBuffer r = Inr ?r'" by (rule eq)
      show "core s ?r'" by (rule c)
      show "length (buffer ?r') = length (buffer r)" by (rule lr)
      show "fuel ?r' < fuel r" by (rule f)
      show "bitsInBuffer r < 128 \<longrightarrow> bitsInBuffer ?r' = 64" using b by simp
    qed simp_all
  qed
qed

lemma core_end_bound:
  assumes "core s r" "endReached r"
  shows "8 * int (length (content s)) \<le> lazyPosition r + bitsInBuffer r"
proof -
  from assms(1) obtain base k P where
    pos: "lazyPosition r = 8 * int base" "bitsInBuffer r = 8 * int k"
    and mode0: "(if endReached r
         then P = length (content s) \<and> k = 8 \<and>
              (base + 8 = length (content s) \<or> base = length (content s))
         else (base + k + 8 = P \<and> (k + 8 = length (buffer r) \<or> P = length (content s))) \<or>
              (base + k = P \<and> P = length (content s) \<and> k \<le> 8))"
    unfolding core_def by blast
  from mode0 assms(2) have "k = 8 \<and> (base + 8 = length (content s) \<or> base = length (content s))"
    by simp
  then show ?thesis unfolding pos by auto
qed

lemma advance_loop_core:
  assumes "core s r" "0 \<le> offset r"
  shows "advance_post s r (advance_loop r)"
  using assms
proof (induction r rule: measure_induct_rule [where f = fuel])
  case (less r)
  show ?case
  proof (cases "bitsInBuffer r < offset r")
    case False
    then show ?thesis using less.prems
      by (subst advance_loop.simps) (simp add: advance_post_def)
  next
    case big: True
    show ?thesis
    proof (cases "endReached r")
      case True
      have "refillBuffer r = Inl UnexpectedEnd" using less.prems(1) True by (rule refill_end)
      moreover have "8 * int (length (content s)) < ActualPosition r"
        using core_end_bound [OF less.prems(1) True] big by (simp add: ActualPosition_def)
      ultimately show ?thesis using big
        by (subst advance_loop.simps) (simp add: advance_post_def)
    next
      case False
      from refill_ok [OF less.prems(1) False] obtain r' where
        r': "refillBuffer r = Inr r'" "core s r'" "offset r' = offset r - bitsInBuffer r"
          "lazyPosition r' = lazyPosition r + bitsInBuffer r" "chunkTargets r' = chunkTargets r"
          "length (buffer r') = length (buffer r)" "fuel r' < fuel r"
        by blast
      have "0 \<le> offset r'" using r'(3) big by simp
      from less.IH [OF r'(7) r'(2) this] have "advance_post s r' (advance_loop r')" .
      moreover have "ActualPosition r' = ActualPosition r"
        using r'(3,4) by (simp add: ActualPosition_def)
      moreover have "advance_loop r = advance_loop r'"
        using big r'(1) by (subst advance_loop.simps) simp
      ultimately show ?thesis using r'(5,6)
        by (simp add: advance_post_def split: option.splits sum.splits)
    qed
  qed
qed

lemma core_offset [simp]: "core s (r\<lparr>offset := x\<rparr>) = core s r"
  by (simp add: core_def)

lemma core_chunkTargets [simp]: "core s (r\<lparr>chunkTargets := x\<rparr>) = core s r"
  by (simp add: core_def)

lemma core_bounds:
  assumes "core s r"
  shows "0 \<le> bitsInBuffer r" "bitsInBuffer r + 64 \<le> 8 * int (length (buffer r))"
    "24 \<le> length (buffer r)" "0 \<le> lazyPosition r"
proof -
  from assms obtain base k m where
    "lazyPosition r = 8 * int base" "bitsInBuffer r = 8 * int k"
    "length (buffer r) = 8 * m" "3 \<le> m" "k + 8 \<le> length (buffer r)"
    unfolding core_def by blast
  then show "0 \<le> bitsInBuffer r" "bitsInBuffer r + 64 \<le> 8 * int (length (buffer r))"
    "24 \<le> length (buffer r)" "0 \<le> lazyPosition r"
    by simp_all
qed

lemma Inv_index:
  assumes "Inv s r"
  shows "0 \<le> offset r div 8" "offset r div 8 + 8 \<le> int (length (buffer r))"
proof -
  from assms have c: "core s r" and o: "0 \<le> offset r" "offset r \<le> max (bitsInBuffer r) 32"
    by (simp_all add: Inv_def)
  show "0 \<le> offset r div 8" using o by simp
  show "offset r div 8 + 8 \<le> int (length (buffer r))"
    using o core_bounds [OF c] by (simp add: max_def split: if_splits)
qed

lemma advance_Inv:
  assumes "core s r" "0 \<le> offset r + n"
  shows "adv_post s r n (advance r n)"
proof -
  let ?r = "r\<lparr>offset := offset r + n\<rparr>"
  have "advance_post s ?r (advance_loop ?r)"
    using assms by (intro advance_loop_core) simp_all
  then show ?thesis
    by (auto simp: advance_post_def adv_post_def advance_def Inv_def ActualPosition_def
        split: option.splits sum.splits)
qed

lemma rd_post_returning:
  "adv_post s r n x \<Longrightarrow> rd_post s r n (returning v x)"
  by (auto simp: adv_post_def rd_post_def returning_def split: option.splits sum.splits)

lemma rd_post_map:
  "rd_post s r n x \<Longrightarrow> rd_post s r n (map_option (map_sum id (map_prod f id)) x)"
  by (auto simp: rd_post_def split: option.splits sum.splits)

lemma load64_Inv:
  assumes "Inv s r" "0 \<le> i" "i \<le> offset r div 8"
  shows "load64 r i = Inr (le_uint64 (drop (nat i) (buffer r)))"
  using Inv_index [OF assms(1)] assms(2,3) by (simp add: load64_def)

lemma ReadInt_Inv:
  assumes "Inv s r" "0 \<le> n" "n \<le> 32"
  shows "rd_post s r n (Some (ReadInt r n))"
proof -
  from assms(1) have c: "core s r" and o: "0 \<le> offset r" "offset r \<le> max (bitsInBuffer r) 32"
    by (simp_all add: Inv_def)
  let ?val = "le_uint64 (drop (nat (offset r div 8)) (buffer r))"
  let ?res = "drop_bit (nat (offset r mod 8)) ?val AND (push_bit (nat n) 1 - 1)"
  let ?r1 = "r\<lparr>offset := offset r + n\<rparr>"
  have ld: "load64 r (offset r div 8) = Inr ?val"
    using assms(1) o by (intro load64_Inv) simp_all
  have c1: "core s ?r1" using c by simp
  show ?thesis
  proof (cases "bitsInBuffer r < offset r + n")
    case False
    then have "ReadInt r n = Inr (?res, ?r1)"
      using ld assms(2) by (simp add: ReadInt_def Let_def)
    moreover have "Inv s ?r1" using c1 o assms(2) False by (simp add: Inv_def)
    ultimately show ?thesis by (simp add: rd_post_def ActualPosition_def)
  next
    case big: True
    show ?thesis
    proof (cases "endReached r")
      case True
      then have "refillBuffer ?r1 = Inl UnexpectedEnd"
        using c1 by (intro refill_end) simp_all
      then have "ReadInt r n = Inl UnexpectedEnd"
        using ld assms(2) big by (simp add: ReadInt_def Let_def)
      moreover have "8 * int (length (content s)) < ActualPosition r + n"
        using core_end_bound [OF c True] big by (simp add: ActualPosition_def)
      ultimately show ?thesis by (simp add: rd_post_def)
    next
      case False
      then have "\<not> endReached ?r1" by simp
      from refill_ok [OF c1 this] obtain r' where
        r': "refillBuffer ?r1 = Inr r'" "core s r'" "offset r' = offset r + n - bitsInBuffer r"
          "lazyPosition r' = lazyPosition r + bitsInBuffer r" "chunkTargets r' = chunkTargets r"
          "length (buffer r') = length (buffer r)"
          "bitsInBuffer r < 128 \<longrightarrow> bitsInBuffer r' = 64"
        by auto
      have eq: "ReadInt r n = Inr (?res, r')"
        using ld assms(2) big r'(1) by (simp add: ReadInt_def Let_def)
      have "offset r' \<le> max (bitsInBuffer r') 32"
      proof (cases "offset r \<le> bitsInBuffer r")
        case True
        then show ?thesis using r'(3) assms(3) by simp
      next
        case False
        then have "offset r \<le> 32" "bitsInBuffer r < 32" using o by (simp_all add: max_def split: if_splits)
        then show ?thesis using r'(3,7) assms(3) core_bounds(1) [OF c] by simp
      qed
      then have "Inv s r'" using r'(2,3) big by (simp add: Inv_def)
      then show ?thesis using eq r'(3,4,5,6) by (simp add: rd_post_def ActualPosition_def)
    qed
  qed
qed

lemma ReadBitsToByte_Inv:
  assumes "Inv s r" "0 \<le> n" "n \<le> 32"
  shows "rd_post s r n (Some (ReadBitsToByte r n))"
  using ReadInt_Inv [OF assms]
  by (auto simp: rd_post_def ReadBitsToByte_def split: sum.splits)

lemma Inv_core: "Inv s r \<Longrightarrow> core s r"
  by (simp add: Inv_def)

lemma ReadBit_Inv:
  assumes "Inv s r"
  shows "rd_post s r 1 (ReadBit r)"
proof -
  have "adv_post s r 1 (advance r 1)"
    using assms by (intro advance_Inv) (simp_all add: Inv_def)
  then show ?thesis
    using Inv_index [OF assms]
    by (simp add: ReadBit_def Let_def rd_post_returning)
qed

lemma readByteInternal_Inv:
  assumes "Inv s r"
  shows "rd_post s r 8 (readByteInternal r bitLevel)"
proof (cases bitLevel)
  case True
  then show ?thesis using ReadBitsToByte_Inv [OF assms, of 8]
    by (simp add: readByteInternal_def)
next
  case False
  have "adv_post s r 8 (advance r 8)"
    using assms by (intro advance_Inv) (simp_all add: Inv_def)
  then show ?thesis
    using Inv_index [OF assms] False
    by (simp add: readByteInternal_def Let_def rd_post_returning)
qed

lemma ReadSingleByte_Inv:
  "Inv s r \<Longrightarrow> rd_post s r 8 (ReadSingleByte r)"
  by (simp add: ReadSingleByte_def readByteInternal_Inv)

lemma read_loop_Inv:
  assumes "Inv s r"
  shows "rd_post s r (8 * int k) (read_loop bitLevel k out r)"
  using assms
proof (induction k arbitrary: out r)
  case 0
  then show ?case by (simp add: rd_post_def)
next
  case (Suc k)
  from readByteInternal_Inv [OF Suc.prems, of bitLevel]
  show ?case
  proof (cases "readByteInternal r bitLevel")
    case None
    then show ?thesis using \<open>rd_post s r 8 (readByteInternal r bitLevel)\<close>
      by (simp add: rd_post_def)
  next
    case (Some x)
    show ?thesis
    proof (cases x)
      case (Inl e)
      then show ?thesis using Some \<open>rd_post s r 8 (readByteInternal r bitLevel)\<close>
        by (simp add: rd_post_def)
    next
      case (Inr p)
      obtain b r' where p: "p = (b, r')" by (cases p)
      have r': "Inv s r'" "ActualPosition r' = ActualPosition r + 8"
        "chunkTargets r' = chunkTargets r" "length (buffer r') = length (buffer r)"
        using Some Inr p \<open>rd_post s r 8 (readByteInternal r bitLevel)\<close>
        by (simp_all add: rd_post_def)
      from Suc.IH [OF r'(1), of "out @ [b]"]
      show ?thesis using Some Inr p r'(2,3,4)
        by (auto simp: rd_post_def split: option.splits sum.splits)
    qed
  qed
qed

lemma ReadBytesInto_Inv:
  assumes "Inv s r" "0 \<le> n"
  shows "rd_post s r (8 * n) (ReadBytesInto r out n)"
proof (cases "offset r mod 8 = 0 \<and> offset r + n * 8 \<le> bitsInBuffer r")
  case True
  from assms(1) have c: "core s r" and o: "0 \<le> offset r" by (simp_all add: Inv_def)
  have "adv_post s r (n * 8) (advance r (n * 8))"
    using c o assms(2) by (intro advance_Inv) simp_all
  moreover have "offset r div 8 + n \<le> int (length (buffer r))"
    using True core_bounds(2) [OF c] by linarith
  moreover have "0 \<le> offset r div 8" using o by simp
  ultimately show ?thesis
    using True assms(2)
    by (simp add: ReadBytesInto_def Let_def rd_post_returning mult.commute)
next
  case False
  have "rd_post s r (8 * int (nat n)) (read_loop (offset r mod 8 \<noteq> 0) (nat n) out r)"
    using assms(1) by (rule read_loop_Inv)
  then show ?thesis using False assms(2) by (auto simp add: ReadBytesInto_def Let_def)
qed

lemma ReadBytes_Inv:
  "Inv s r \<Longrightarrow> 0 \<le> n \<Longrightarrow> rd_post s r (8 * n) (ReadBytes r n)"
  by (simp add: ReadBytes_def ReadBytesInto_Inv)

lemma ReadCString_Inv:
  "Inv s r \<Longrightarrow> 0 \<le> n \<Longrightarrow> rd_post s r (8 * n) (ReadCString r n)"
  unfolding ReadCString_def by (intro rd_post_map ReadBytes_Inv)

lemma ReadSignedInt_Inv:
  assumes "Inv s r" "0 \<le> n"
  shows "rd_post s r n (ReadSignedInt r n)"
proof -
  from assms(1) have c: "core s r" and o: "0 \<le> offset r" by (simp_all add: Inv_def)
  let ?i = "offset r div 8 - offset r div 8 mod 4"
  have "0 \<le> offset r div 8" using o by simp
  then have i: "0 \<le> ?i" "?i \<le> offset r div 8" by presburger+
  have ld: "load64 r ?i = Inr (le_uint64 (drop (nat ?i) (buffer r)))"
    using assms(1) i by (rule load64_Inv)
  have "adv_post s r n (advance r n)"
    using c o assms(2) by (intro advance_Inv) simp_all
  then show ?thesis
    by (simp add: ReadSignedInt_def ld Let_def rd_post_returning)
qed

lemma ReadBits_Inv:
  assumes "Inv s r" "0 \<le> n"
  shows "rd_post s r n (ReadBits r n)"
proof -
  let ?k = "nat (n div 8)"
  let ?x = "read_loop (offset r mod 8 \<noteq> 0) ?k [] r"
  have "0 \<le> n div 8" using assms(2) by (simp add: pos_imp_zdiv_nonneg_iff)
  then have k: "8 * int ?k + n mod 8 = n" by simp
  have m0: "0 \<le> n mod 8" by simp
  have nn: "\<not> (n + 7) div 8 < 0" using assms(2) by simp
  have p1: "rd_post s r (8 * int ?k) ?x" using assms(1) by (rule read_loop_Inv)
  show ?thesis
  proof (cases ?x)
    case None
    then show ?thesis using p1 by (simp add: rd_post_def)
  next
    case (Some y)
    show ?thesis
    proof (cases y)
      case (Inl e)
      then have "8 * int (length (content s)) < ActualPosition r + 8 * int ?k" "e = UnexpectedEnd"
        using p1 Some by (simp_all add: rd_post_def)
      moreover from this have "8 * int (length (content s)) < ActualPosition r + n"
        using k m0 by linarith
      ultimately show ?thesis using Some Inl nn by (simp add: rd_post_def ReadBits_def)
    next
      case (Inr p)
      obtain bs r1 where p: "p = (bs, r1)" by (cases p)
      have r1: "Inv s r1" "ActualPosition r1 = ActualPosition r + 8 * int ?k"
        "chunkTargets r1 = chunkTargets r" "length (buffer r1) = length (buffer r)"
        using p1 Some Inr p by (simp_all add: rd_post_def)
      show ?thesis
      proof (cases "n mod 8 = 0")
        case True
        then show ?thesis using Some Inr p r1 k nn by (simp add: rd_post_def ReadBits_def)
      next
        case False
        have "rd_post s r1 (n mod 8) (Some (ReadBitsToByte r1 (n mod 8)))"
          using r1(1) by (intro ReadBitsToByte_Inv) simp_all
        then show ?thesis using Some Inr p r1 k nn False assms(2)
          by (auto simp add: rd_post_def ReadBits_def split: sum.splits)
      qed
    qed
  qed
qed

lemma skip_post_adv: "adv_post s r n x \<Longrightarrow> skip_post s r n x"
  by (auto simp: adv_post_def skip_post_def split: option.splits sum.splits)

lemma Skip_Inv:
  assumes "Inv s r" "0 \<le> n"
  shows "skip_post s r n (Skip r n)"
proof -
  from assms(1) have c: "core s r" and o: "0 \<le> offset r" "offset r \<le> max (bitsInBuffer r) 32"
    by (simp_all add: Inv_def)
  from c obtain u base k P m where
    u: "underlying r = Some u" "content u = content s" "seekable u = seekable s"
       "rpos u = int P" "P \<le> length (content s)"
    and pos: "lazyPosition r = 8 * int base" "bitsInBuffer r = 8 * int k"
    and len: "length (buffer r) = 8 * m" "3 \<le> m" "k + 8 \<le> length (buffer r)"
    and mode0: "(if endReached r
         then P = length (content s) \<and> k = 8 \<and>
              (base + 8 = length (content s) \<or> base = length (content s))
         else (base + k + 8 = P \<and> (k + 8 = length (buffer r) \<or> P = length (content s))) \<or>
              (base + k = P \<and> P = length (content s) \<and> k \<le> 8))"
    unfolding core_def by blast
  have adv: "adv_post s r n (advance r n)"
    using c o assms(2) by (intro advance_Inv) simp_all
  let ?d = "content s"
  show ?thesis
  proof (cases "bitsInBuffer r - offset r + 64 < n \<and> seekable u")
    case False
    then have "Skip r n = advance r n" using u by (auto simp add: Skip_def Let_def)
    then show ?thesis using adv by (simp add: skip_post_adv)
  next
    case True
    define ub where "ub = n - (bitsInBuffer r - offset r)"
    have ub: "64 < ub" using True by (simp add: ub_def)
    define q where "q = nat (ub div 8 - 8)"
    have q: "ub div 8 - 8 = int q" using ub by (simp add: q_def)
    have ubq: "ub = 8 * int q + 64 + ub mod 8" using q by presburger
    let ?u1 = "u\<lparr>rpos := int (P + q)\<rparr>"
    have seek: "src_Seek u (ub div 8 - int sled) = Inr (int (P + q), ?u1)"
      using u q by (simp add: src_Seek_def Let_def)
    have geq: "8 * int P \<le> lazyPosition r + bitsInBuffer r + 64"
      using mode0 u(5) unfolding pos by (auto split: if_splits)
    show ?thesis
    proof (cases "length ?d \<le> P + q")
      case True
      then have "src_Read ?u1 (length (buffer r)) = ([], Some EOF, ?u1)"
        using u by (simp add: src_Read_def)
      then have "Skip r n = Some (Inl (UnderlyingIOError EOF))"
        using u \<open>bitsInBuffer r - offset r + 64 < n \<and> seekable u\<close> seek
        by (simp add: Skip_def Let_def ub_def [symmetric])
      moreover have "8 * int (length ?d) \<le> ActualPosition r + n"
      proof -
        have "ActualPosition r + n = lazyPosition r + bitsInBuffer r + ub"
          by (simp add: ActualPosition_def ub_def)
        moreover have "0 \<le> ub mod 8" by simp
        ultimately show ?thesis using geq ubq True by linarith
      qed
      ultimately show ?thesis
        using \<open>bitsInBuffer r - offset r + 64 < n \<and> seekable u\<close> u(3)
        by (simp add: skip_post_def)
    next
      case False
      then have PL: "P + q < length ?d" by simp
      then have ne: "\<not> endReached r" and S: "base + k + 8 = P"
        using mode0 by (auto split: if_splits)
      define bs where "bs = take (length (buffer r)) (drop (P + q) ?d)"
      define nb where "nb = length bs"
      have nb0: "nb = min (length (buffer r)) (length ?d - (P + q))"
        by (simp add: nb_def bs_def)
      have nb1: "1 \<le> nb" "nb \<le> length (buffer r)" "P + q + nb \<le> length ?d"
        "nb = length (buffer r) \<or> P + q + nb = length ?d"
        using PL len unfolding nb0 by linarith+
      have bsn: "bs ! j = ?d ! (P + q + j)" if "j < nb" for j
        using that PL unfolding nb_def bs_def by simp
      let ?u2 = "u\<lparr>rpos := int (P + q) + int nb\<rparr>"
      have rd: "src_Read ?u1 (length (buffer r)) = (bs, None, ?u2)"
        using u PL unfolding nb_def bs_def by (simp add: src_Read_def Let_def nat_int_add)
      let ?r' = "r\<lparr>lazyPosition := int (P + q) * 8, underlying := Some ?u2,
                  buffer := bs @ drop nb (buffer r), offset := ub mod 8,
                  bitsInBuffer := (if int nb \<le> 8 then int nb * 8 - 64 + 64 else int nb * 8 - 64)\<rparr>"
      have eq: "Skip r n = Some (Inr ?r')"
        using u \<open>bitsInBuffer r - offset r + 64 < n \<and> seekable u\<close> seek rd
        by (simp add: Skip_def Let_def ub_def [symmetric] nb_def [symmetric])
      define k' where "k' = (if nb \<le> 8 then nb else nb - 8)"
      have bib: "bitsInBuffer ?r' = 8 * int k'"
        by (simp add: k'_def)
      have lr: "length (buffer ?r') = length (buffer r)"
        using nb1 by (simp add: nb_def [symmetric])
      have cont': "buffer ?r' ! i = ?d ! (P + q + i)" if "P + q + i < P + q + nb" for i
        using that bsn by (simp add: nth_append nb_def [symmetric])
      have c': "core s ?r'"
        unfolding core_def
        apply (rule exI[of _ ?u2], rule exI[of _ "P + q"], rule exI[of _ k'], rule exI[of _ "P + q + nb"], rule exI[of _ m])
        apply (intro conjI)
        subgoal by simp
        subgoal using u by simp
        subgoal using u by simp
        subgoal by simp
        subgoal using nb1 by simp
        subgoal by simp
        subgoal by (rule bib)
        subgoal using len lr by (simp only:)
        subgoal using len by simp
        subgoal using nb1 len unfolding lr k'_def by simp
        subgoal using cont' by blast
        subgoal using ne nb1 len unfolding lr k'_def by auto
        done
      have ap: "ActualPosition ?r' = ActualPosition r + n"
      proof -
        have "ActualPosition ?r' = 8 * int P + 8 * int q + ub mod 8"
          by (simp add: ActualPosition_def)
        also have "\<dots> = 8 * int P - 64 + ub" using ubq by linarith
        also have "8 * int P - 64 = lazyPosition r + bitsInBuffer r"
          unfolding pos using S by linarith
        finally show ?thesis by (simp add: ActualPosition_def ub_def)
      qed
      have "1 \<le> k'" using nb1 by (auto simp add: k'_def)
      moreover have "ub mod 8 < 8" by simp
      ultimately have "offset ?r' \<le> bitsInBuffer ?r'" unfolding bib by simp
      then have "Inv s ?r'" using c' by (simp add: Inv_def)
      then show ?thesis unfolding eq skip_post_def using ap lr by simp
    qed
  qed
qed

lemma step_post_rd: "rd_post s r n x \<Longrightarrow> step_post s r (tagged f x)"
  by (auto simp: rd_post_def step_post_def tagged_def split: option.splits sum.splits)

lemma step_post_skip: "skip_post s r n x \<Longrightarrow> step_post s r (returning v x)"
  by (auto simp: skip_post_def step_post_def returning_def split: option.splits sum.splits)

lemma Inv_chunkTargets [simp]: "Inv s (r\<lparr>chunkTargets := x\<rparr>) = Inv s r"
  by (simp add: Inv_def)

lemma EndChunk_Inv:
  assumes "Inv s r"
  shows "end_post s r (EndChunk r)"
proof (cases "chunkTargets r = []")
  case True
  then show ?thesis by (simp add: EndChunk_def pop_def end_post_def)
next
  case False
  let ?t = "last (chunkTargets r)"
  let ?r1 = "r\<lparr>chunkTargets := butlast (chunkTargets r)\<rparr>"
  have ap1: "ActualPosition ?r1 = ActualPosition r" by (simp add: ActualPosition_def)
  consider "?t < ActualPosition r" | "?t = ActualPosition r" | "ActualPosition r < ?t" by linarith
  then show ?thesis
  proof cases
    case 1
    then show ?thesis using False
      by (simp add: EndChunk_def pop_def end_post_def Let_def ap1)
  next
    case 2
    then show ?thesis using False assms
      by (simp add: EndChunk_def pop_def end_post_def Let_def ap1)
  next
    case 3
    have "skip_post s ?r1 (?t - ActualPosition r) (Skip ?r1 (?t - ActualPosition r))"
      using assms 3 by (intro Skip_Inv) simp_all
    then show ?thesis using False 3
      by (auto simp add: EndChunk_def pop_def end_post_def skip_post_def Let_def ap1
          split: option.splits sum.splits)
  qed
qed

lemma step_post_end: "end_post s r x \<Longrightarrow> step_post s r (returning v x)"
  by (auto simp: end_post_def step_post_def returning_def split: option.splits sum.splits)

lemma step_Inv:
  assumes "Inv s r" "valid_op c"
  shows "step_post s r (step r c)"
proof (cases c)
  case OpReadBit
  then show ?thesis using ReadBit_Inv [OF assms(1)] by (simp add: step_post_rd)
next
  case (OpReadBits n)
  then show ?thesis using ReadBits_Inv [OF assms(1), of n] assms(2) by (simp add: step_post_rd)
next
  case OpReadSingleByte
  then show ?thesis using ReadSingleByte_Inv [OF assms(1)] by (simp add: step_post_rd)
next
  case (OpReadBitsToByte n)
  then show ?thesis using ReadBitsToByte_Inv [OF assms(1), of n] assms(2) by (simp add: step_post_rd)
next
  case (OpReadInt n)
  then show ?thesis using ReadInt_Inv [OF assms(1), of n] assms(2) by (simp add: step_post_rd)
next
  case (OpReadBytes n)
  then show ?thesis using ReadBytes_Inv [OF assms(1), of n] assms(2) by (simp add: step_post_rd)
next
  case (OpReadCString n)
  then show ?thesis using ReadCString_Inv [OF assms(1), of n] assms(2) by (simp add: step_post_rd)
next
  case (OpReadSignedInt n)
  then show ?thesis using ReadSignedInt_Inv [OF assms(1), of n] assms(2) by (simp add: step_post_rd)
next
  case (OpBeginChunk n)
  then show ?thesis using assms(1) by (simp add: step_post_def BeginChunk_def)
next
  case OpEndChunk
  then show ?thesis using EndChunk_Inv [OF assms(1)] by (simp add: step_post_end)
next
  case OpChunkFinished
  then show ?thesis using assms(1)
    by (simp add: step_post_def ChunkFinished_def top_def)
next
  case (OpSkip n)
  then show ?thesis using Skip_Inv [OF assms(1), of n] assms(2) by (simp add: step_post_skip)
next
  case OpActualPosition
  then show ?thesis using assms(1) by (simp add: step_post_def)
next
  case OpLazyPosition
  then show ?thesis using assms(1) by (simp add: step_post_def)
qed

lemma run_Inv:
  assumes "Inv s r" "\<forall>c\<in>set cs. valid_op c"
  shows "step_post s r (run r cs)"
  using assms
proof (induction cs arbitrary: r)
  case Nil
  then show ?case by (simp add: step_post_def)
next
  case (Cons c cs)
  have sp: "step_post s r (step r c)" using Cons.prems by (intro step_Inv) simp_all
  show ?case
  proof (cases "step r c")
    case None
    then show ?thesis using sp by (simp add: step_post_def)
  next
    case (Some x)
    show ?thesis
    proof (cases x)
      case (Inl e)
      then show ?thesis using sp Some by (simp add: step_post_def)
    next
      case (Inr p)
      obtain v r' where p: "p = (v, r')" by (cases p)
      have r': "Inv s r'" "length (buffer r') = length (buffer r)"
        using sp Some Inr p by (simp_all add: step_post_def)
      have "step_post s r' (run r' cs)" using r'(1) Cons.prems(2) by (intro Cons.IH) simp_all
      then show ?thesis using Some Inr p r'(2)
        by (auto simp: step_post_def split: option.splits sum.splits)
    qed
  qed
qed

lemma Open_Inv:
  assumes "Open new_BitReader s n = Inr r" "rpos s = 0"
  shows "Inv s r"
proof -
  let ?d = "content s"
  from assms(1) have n0: "0 \<le> n" by (simp add: Open_def split: if_splits)
  define L where "L = nat n"
  let ?buf = "replicate L (0 :: byte)"
  have ob: "OpenWithBuffer new_BitReader s ?buf = Inr r"
    using assms(1) n0 by (simp add: Open_def L_def)
  then have L: "int L mod 8 = 0" "16 < L"
    by (simp_all add: OpenWithBuffer_def split: if_splits)
  define m where "m = L div 8"
  have m: "L = 8 * m" "3 \<le> m" using L unfolding m_def by presburger+
  have ne: "?d \<noteq> []"
    using ob L assms(2) by (auto simp add: OpenWithBuffer_def src_Read_def split: if_splits)
  define bs where "bs = take L ?d"
  define nb where "nb = length bs"
  have nb1: "1 \<le> nb" "nb \<le> L" "nb \<le> length ?d" "nb = L \<or> nb = length ?d"
    using ne L(2) by (auto simp: nb_def bs_def Suc_le_eq)
  let ?u = "s\<lparr>rpos := int nb\<rparr>"
  define k where "k = (if nb < 8 then nb else nb - 8)"
  let ?r = "new_BitReader\<lparr>endReached := False, underlying := Some ?u,
              buffer := bs @ drop nb ?buf, bitsInBuffer := 8 * int k\<rparr>"
  have rd: "src_Read s L = (bs, None, ?u)"
    using ne assms(2) by (simp add: src_Read_def Let_def bs_def nb_def)
  have "r = ?r"
    using ob L rd by (auto simp add: OpenWithBuffer_def nb_def [symmetric] k_def)
  moreover have "core s ?r"
    unfolding core_def
    apply (rule exI[of _ ?u], rule exI[of _ 0], rule exI[of _ k], rule exI[of _ nb], rule exI[of _ m])
    using nb1 m
    by (auto simp: new_BitReader_def k_def nth_append nb_def bs_def)
  ultimately show ?thesis by (simp add: Inv_def new_BitReader_def)
qed

lemma refill_any:
  assumes "refillBuffer r = Inr r'"
  shows "offset r' = offset r - bitsInBuffer r" "lazyPosition r' = lazyPosition r + bitsInBuffer r"
    "chunkTargets r' = chunkTargets r"
  using assms
  by (auto simp: refillBuffer_def Let_def split: if_splits option.splits prod.splits io_error.splits)

lemma refill_err:
  assumes "refillBuffer r = Inl e"
  shows "e \<noteq> ChunkOverrun" "e \<noteq> StackIndexOutOfRange" "\<forall>a b. e \<noteq> SkipFailed a b"
  using assms
  by (auto simp: refillBuffer_def Let_def split: if_splits option.splits prod.splits io_error.splits)

lemma advance_loop_any:
  assumes "advance_loop r = Some x"
  shows "case x of
           Inl e \<Rightarrow> e \<noteq> ChunkOverrun \<and> e \<noteq> StackIndexOutOfRange \<and> (\<forall>a b. e \<noteq> SkipFailed a b)
         | Inr r' \<Rightarrow> ActualPosition r' = ActualPosition r \<and> chunkTargets r' = chunkTargets r"
  using assms
proof (induction rule: advance_loop.raw_induct [rotated, consumes 1])
  case (1 advance_loop r x)
  show ?case
  proof (cases "bitsInBuffer r < offset r")
    case False
    then show ?thesis using 1(2) by auto
  next
    case True
    show ?thesis
    proof (cases "refillBuffer r")
      case (Inl e)
      then have "x = Inl e" using 1(2) True by simp
      then show ?thesis using refill_err [OF Inl] by simp
    next
      case (Inr r1)
      then have "advance_loop r1 = Some x" using 1(2) True by simp
      from 1(1) [OF this] refill_any [OF Inr] show ?thesis
        by (auto simp: ActualPosition_def split: sum.splits)
    qed
  qed
qed

lemma advance_any:
  assumes "advance r n = Some x"
  shows "case x of
           Inl e \<Rightarrow> e \<noteq> ChunkOverrun \<and> e \<noteq> StackIndexOutOfRange \<and> (\<forall>a b. e \<noteq> SkipFailed a b)
         | Inr r' \<Rightarrow> ActualPosition r' = ActualPosition r + n \<and> chunkTargets r' = chunkTargets r"
  using advance_loop_any [of "r\<lparr>offset := offset r + n\<rparr>" x] assms
  by (auto simp: advance_def ActualPosition_def split: sum.splits)

lemma advance_ok:
  "advance r n = Some (Inr r') \<Longrightarrow>
     ActualPosition r' = ActualPosition r + n \<and> chunkTargets r' = chunkTargets r"
  using advance_any [of r n "Inr r'"] by simp

lemma returning_ok:
  "returning v x = Some (Inr (w, r')) \<longleftrightarrow> w = v \<and> x = Some (Inr r')"
  by (cases x) (auto simp: returning_def map_sum_def split: sum.splits)

lemma ReadBit_ok:
  "ReadBit r = Some (Inr (b, r')) \<Longrightarrow>
     ActualPosition r' = ActualPosition r + 1 \<and> chunkTargets r' = chunkTargets r"
  by (auto simp: ReadBit_def Let_def returning_ok split: if_splits dest: advance_ok)

lemma ReadInt_ok:
  assumes "ReadInt r n = Inr (v, r')"
  shows "ActualPosition r' = ActualPosition r + n \<and> chunkTargets r' = chunkTargets r"
proof (cases "bitsInBuffer r < offset r + n")
  case False
  then show ?thesis using assms
    by (auto simp: ReadInt_def Let_def ActualPosition_def split: if_splits sum.splits)
next
  case True
  then have "refillBuffer (r\<lparr>offset := offset r + n\<rparr>) = Inr r'"
    using assms by (auto simp: ReadInt_def Let_def split: if_splits sum.splits)
  from refill_any [OF this] show ?thesis by (simp add: ActualPosition_def)
qed

lemma ReadBitsToByte_ok:
  "ReadBitsToByte r n = Inr (v, r') \<Longrightarrow>
     ActualPosition r' = ActualPosition r + n \<and> chunkTargets r' = chunkTargets r"
  by (cases "ReadInt r n") (auto simp: ReadBitsToByte_def dest: ReadInt_ok)

lemma readByteInternal_ok:
  "readByteInternal r bl = Some (Inr (v, r')) \<Longrightarrow>
     ActualPosition r' = ActualPosition r + 8 \<and> chunkTargets r' = chunkTargets r"
  by (auto simp: readByteInternal_def Let_def returning_ok split: if_splits
      dest: advance_ok ReadBitsToByte_ok)

lemma ReadSingleByte_ok:
  "ReadSingleByte r = Some (Inr (v, r')) \<Longrightarrow>
     ActualPosition r' = ActualPosition r + 8 \<and> chunkTargets r' = chunkTargets r"
  unfolding ReadSingleByte_def by (rule readByteInternal_ok)

lemma read_loop_ok:
  "read_loop bl k out r = Some (Inr (bs, r')) \<Longrightarrow>
     ActualPosition r' = ActualPosition r + 8 * int k \<and> chunkTargets r' = chunkTargets r \<and>
     length bs = length out + k"
proof (induction k arbitrary: out r)
  case 0
  then show ?case by simp
next
  case (Suc k)
  from Suc.prems obtain b r1 where
    s1: "readByteInternal r bl = Some (Inr (b, r1))" and
    s2: "read_loop bl k (out @ [b]) r1 = Some (Inr (bs, r'))"
    by (auto split: option.splits sum.splits)
  from readByteInternal_ok [OF s1] Suc.IH [OF s2] show ?case by simp
qed

lemma ReadBytesInto_ok:
  assumes "ReadBytesInto r out n = Some (Inr (bs, r'))" "0 \<le> n"
  shows "ActualPosition r' = ActualPosition r + 8 * n \<and> chunkTargets r' = chunkTargets r"
proof (cases "offset r mod 8 = 0 \<and> offset r + n * 8 \<le> bitsInBuffer r")
  case True
  then have "advance r (n * 8) = Some (Inr r')"
    using assms(1) by (auto simp: ReadBytesInto_def Let_def returning_ok split: if_splits)
  from advance_ok [OF this] show ?thesis by simp
next
  case False
  then have "read_loop (offset r mod 8 \<noteq> 0) (nat n) out r = Some (Inr (bs, r'))"
    using assms(1) by (auto simp: ReadBytesInto_def Let_def)
  from read_loop_ok [OF this] assms(2) show ?thesis by simp
qed

lemma ReadBytes_ok:
  assumes "ReadBytes r n = Some (Inr (bs, r'))"
  shows "ActualPosition r' = ActualPosition r + 8 * n \<and> chunkTargets r' = chunkTargets r"
proof -
  from assms have "0 \<le> n" "ReadBytesInto r [] n = Some (Inr (bs, r'))"
    by (auto simp: ReadBytes_def split: if_splits)
  then show ?thesis using ReadBytesInto_ok by blast
qed

lemma ReadCString_ok:
  assumes "ReadCString r n = Some (Inr (str, r'))"
  shows "ActualPosition r' = ActualPosition r + 8 * n \<and> chunkTargets r' = chunkTargets r"
proof -
  from assms obtain bs where "ReadBytes r n = Some (Inr (bs, r'))"
    by (cases "ReadBytes r n") (auto simp: ReadCString_def map_sum_def split: sum.splits)
  then show ?thesis by (rule ReadBytes_ok)
qed

lemma ReadSignedInt_ok:
  "ReadSignedInt r n = Some (Inr (v, r')) \<Longrightarrow>
     ActualPosition r' = ActualPosition r + n \<and> chunkTargets r' = chunkTargets r"
  by (auto simp: ReadSignedInt_def Let_def returning_ok split: sum.splits dest: advance_ok)

lemma ReadBits_ok:
  assumes "ReadBits r n = Some (Inr (bs, r'))"
  shows "ActualPosition r' = ActualPosition r + n \<and> chunkTargets r' = chunkTargets r"
proof -
  from assms have nn: "\<not> (n + 7) div 8 < 0" by (auto simp: ReadBits_def split: if_splits)
  from assms nn obtain bs1 r1 where
    s1: "read_loop (offset r mod 8 \<noteq> 0) (nat (n div 8)) [] r = Some (Inr (bs1, r1))"
    by (auto simp: ReadBits_def split: option.splits sum.splits)
  note l = read_loop_ok [OF s1]
  show ?thesis
  proof (cases "n mod 8 = 0")
    case True
    then have "r' = r1" using assms nn s1 by (simp add: ReadBits_def)
    moreover have "0 \<le> n" using nn True by presburger
    then have "8 * int (nat (n div 8)) = n" using True by (simp add: pos_imp_zdiv_nonneg_iff) presburger
    ultimately show ?thesis using l by simp
  next
    case False
    then obtain b where s2: "ReadBitsToByte r1 (n mod 8) = Inr (b, r')" and n0: "0 \<le> n"
      using assms nn s1 by (auto simp: ReadBits_def split: sum.splits if_splits)
    have "8 * int (nat (n div 8)) + n mod 8 = n" using n0 by (simp add: pos_imp_zdiv_nonneg_iff)
    then show ?thesis using l ReadBitsToByte_ok [OF s2] by simp
  qed
qed

lemma Skip_any:
  assumes "Skip r n = Some x"
  shows "case x of
           Inl e \<Rightarrow> e \<noteq> ChunkOverrun \<and> e \<noteq> StackIndexOutOfRange \<and> (\<forall>a b. e \<noteq> SkipFailed a b)
         | Inr r' \<Rightarrow> chunkTargets r' = chunkTargets r"
proof (cases "\<exists>u. underlying r = Some u \<and> bitsInBuffer r - offset r + 64 < n \<and> seekable u")
  case True
  then show ?thesis using assms
    by (auto simp: Skip_def Let_def split: sum.splits prod.splits option.splits)
next
  case False
  then have "Skip r n = advance r n"
    by (auto simp: Skip_def Let_def split: option.splits)
  with assms advance_any [of r n x] show ?thesis by (auto split: sum.splits)
qed

lemma EndChunk_overrun_iff:
  "EndChunk r = Some (Inl ChunkOverrun) \<longleftrightarrow>
     chunkTargets r \<noteq> [] \<and> last (chunkTargets r) < ActualPosition r"
proof (cases "chunkTargets r = []")
  case True
  then show ?thesis by (simp add: EndChunk_def pop_def)
next
  case False
  let ?t = "last (chunkTargets r)"
  let ?r1 = "r\<lparr>chunkTargets := butlast (chunkTargets r)\<rparr>"
  have ap1: "ActualPosition ?r1 = ActualPosition r" by (simp add: ActualPosition_def)
  show ?thesis
  proof (cases "?t < ActualPosition r")
    case True
    then show ?thesis using False by (simp add: EndChunk_def pop_def Let_def ap1)
  next
    case nlt: False
    show ?thesis
    proof (cases "?t = ActualPosition r")
      case True
      then show ?thesis using False by (simp add: EndChunk_def pop_def Let_def ap1)
    next
      case False
      then have d: "0 < ?t - ActualPosition r" using nlt by simp
      have "EndChunk r \<noteq> Some (Inl ChunkOverrun)"
      proof (cases "Skip ?r1 (?t - ActualPosition r)")
        case None
        then show ?thesis using \<open>chunkTargets r \<noteq> []\<close> d
          by (simp add: EndChunk_def pop_def Let_def ap1)
      next
        case (Some x)
        from Skip_any [OF Some] show ?thesis using \<open>chunkTargets r \<noteq> []\<close> d Some
          by (cases x) (auto simp add: EndChunk_def pop_def Let_def ap1)
      qed
      then show ?thesis using nlt by simp
    qed
  qed
qed

lemma EndChunk_ok:
  assumes "EndChunk r = Some (Inr r')"
  shows "chunkTargets r \<noteq> []" "chunkTargets r' = butlast (chunkTargets r)"
    "ActualPosition r' = last (chunkTargets r)" "ActualPosition r \<le> last (chunkTargets r)"
proof -
  show ne: "chunkTargets r \<noteq> []" using assms by (auto simp: EndChunk_def pop_def)
  let ?t = "last (chunkTargets r)"
  let ?r1 = "r\<lparr>chunkTargets := butlast (chunkTargets r)\<rparr>"
  have ap1: "ActualPosition ?r1 = ActualPosition r" by (simp add: ActualPosition_def)
  show le: "ActualPosition r \<le> ?t"
    using assms ne by (auto simp: EndChunk_def pop_def Let_def ap1 split: if_splits)
  show "ActualPosition r' = ?t"
    using assms ne
    by (auto simp: EndChunk_def pop_def Let_def ap1 split: if_splits option.splits sum.splits)
  show "chunkTargets r' = butlast (chunkTargets r)"
  proof (cases "ActualPosition r = ?t")
    case True
    then show ?thesis using assms ne
      by (auto simp: EndChunk_def pop_def Let_def ap1 split: if_splits)
  next
    case False
    then have d: "0 < ?t - ActualPosition r" using le by simp
    then have "Skip ?r1 (?t - ActualPosition r) = Some (Inr r')"
      using assms ne
      by (auto simp: EndChunk_def pop_def Let_def ap1 split: if_splits option.splits sum.splits)
    from Skip_any [OF this] show ?thesis by simp
  qed
qed

lemma tagged_ok:
  "tagged f x = Some (Inr (w, r')) \<longleftrightarrow> (\<exists>v. w = f v \<and> x = Some (Inr (v, r')))"
  by (cases x) (auto simp: tagged_def map_sum_def split: sum.splits)

lemma step_read_ok:
  assumes "is_read c" "step r c = Some (Inr (v, r'))"
  shows "ActualPosition r' = ActualPosition r + width c \<and> chunkTargets r' = chunkTargets r"
  using assms
  by (cases c)
    (auto simp: tagged_ok dest: ReadBit_ok ReadBits_ok ReadSingleByte_ok ReadBitsToByte_ok
      ReadInt_ok ReadBytes_ok ReadCString_ok ReadSignedInt_ok)

lemma run_Cons_ok:
  "run r (c # cs) = Some (Inr (vs, r'')) \<longleftrightarrow>
     (\<exists>v r' vs'. step r c = Some (Inr (v, r')) \<and> run r' cs = Some (Inr (vs', r'')) \<and> vs = v # vs')"
  by (auto split: option.splits sum.splits)

lemma run_reads_ok:
  assumes "list_all is_read cs" "run r cs = Some (Inr (vs, r'))"
  shows "ActualPosition r' = ActualPosition r + sum_list (map width cs) \<and>
         chunkTargets r' = chunkTargets r"
  using assms
proof (induction cs arbitrary: r vs)
  case Nil
  then show ?case by simp
next
  case (Cons c cs)
  from Cons.prems(2) obtain v r1 vs' where
    s: "step r c = Some (Inr (v, r1))" "run r1 cs = Some (Inr (vs', r'))"
    unfolding run_Cons_ok by blast
  from step_read_ok [OF _ s(1)] Cons.IH [OF _ s(2)] Cons.prems(1)
  show ?case by simp
qed

lemma step_depth:
  assumes "step r c = Some (Inr (v, r'))"
  shows "int (length (chunkTargets r')) = int (length (chunkTargets r)) + depth_change c"
proof (cases "is_read c")
  case True
  from step_read_ok [OF True assms] show ?thesis using True by (cases c) simp_all
next
  case False
  show ?thesis
  proof (cases c)
    case (OpBeginChunk n)
    then show ?thesis using assms by (auto simp: BeginChunk_def push_def)
  next
    case OpEndChunk
    then have "EndChunk r = Some (Inr r')" using assms by (simp add: returning_ok)
    from EndChunk_ok(1,2) [OF this] show ?thesis using OpEndChunk
      by (cases "chunkTargets r" rule: rev_cases) simp_all
  next
    case OpChunkFinished
    then show ?thesis using assms by (auto simp: map_sum_def split: sum.splits)
  next
    case (OpSkip n)
    then have "Skip r n = Some (Inr r')" using assms by (simp add: returning_ok)
    from Skip_any [OF this] show ?thesis using OpSkip by simp
  next
    case OpActualPosition
    then show ?thesis using assms by auto
  next
    case OpLazyPosition
    then show ?thesis using assms by auto
  qed (use False in simp_all)
qed

lemma run_depth:
  assumes "run r cs = Some (Inr (vs, r'))"
  shows "int (length (chunkTargets r')) = int (length (chunkTargets r)) + sum_list (map depth_change cs)"
  using assms
proof (induction cs arbitrary: r vs)
  case Nil
  then show ?case by simp
next
  case (Cons c cs)
  from Cons.prems obtain v r1 vs' where
    s: "step r c = Some (Inr (v, r1))" "run r1 cs = Some (Inr (vs', r'))"
    unfolding run_Cons_ok by blast
  from step_depth [OF s(1)] Cons.IH [OF s(2)] show ?case by simp
qed

lemma is_okE: "is_ok x \<Longrightarrow> \<exists>y. x = Some (Inr y)"
  by (auto simp: is_ok_def split: option.splits sum.splits)

lemma Inr_projr: "\<not> isl x \<Longrightarrow> x = Inr (projr x)"
  by (cases x) simp_all

text \<open>
  C10. On a reader with no open chunk, \<open>EndChunk\<close> and \<open>ChunkFinished\<close> panic on the empty
  stack of targets instead of returning. An \<open>EndChunk\<close> that returns has popped the last
  target pushed, which is the position it returns at; over any run of calls that returns,
  the depth of the stack is the depth at the start plus the number of \<open>BeginChunk\<close> calls
  minus the number of \<open>EndChunk\<close> calls, so from an empty stack no run has more
  \<open>EndChunk\<close> than \<open>BeginChunk\<close> calls.
\<close>

theorem EndChunk_needs_open_chunk:
  "(chunkTargets r = [] \<longrightarrow>
      EndChunk r = Some (Inl StackIndexOutOfRange) \<and> ChunkFinished r = Inl StackIndexOutOfRange) \<and>
   (EndChunk r = Some (Inr r') \<longrightarrow> chunkTargets r = chunkTargets r' @ [ActualPosition r']) \<and>
   (run r cs = Some (Inr (vs, r'')) \<longrightarrow>
      int (length (chunkTargets r'')) =
        int (length (chunkTargets r)) + sum_list (map depth_change cs)) \<and>
   (chunkTargets r = [] \<and> run r cs = Some (Inr (vs, r'')) \<longrightarrow>
      0 \<le> sum_list (map depth_change cs))"
proof (intro conjI impI)
  assume "chunkTargets r = []"
  then show "EndChunk r = Some (Inl StackIndexOutOfRange)"
    by (simp add: EndChunk_def pop_def)
  from \<open>chunkTargets r = []\<close> show "ChunkFinished r = Inl StackIndexOutOfRange"
    by (simp add: ChunkFinished_def top_def)
next
  assume "EndChunk r = Some (Inr r')"
  from EndChunk_ok(1,2,3) [OF this]
  show "chunkTargets r = chunkTargets r' @ [ActualPosition r']" by simp
next
  assume "run r cs = Some (Inr (vs, r''))"
  then show "int (length (chunkTargets r'')) =
      int (length (chunkTargets r)) + sum_list (map depth_change cs)"
    by (rule run_depth)
next
  assume "chunkTargets r = [] \<and> run r cs = Some (Inr (vs, r''))"
  then show "0 \<le> sum_list (map depth_change cs)"
    using run_depth [of r cs vs r''] by simp
qed

theorem EndChunk_needs_open_chunk_witness:
  "chunkTargets new_BitReader = [] \<and>
   EndChunk new_BitReader = Some (Inl StackIndexOutOfRange) \<and>
   ChunkFinished new_BitReader = Inl StackIndexOutOfRange \<and>
   (\<exists>r'. EndChunk (BeginChunk new_BitReader 0) = Some (Inr r') \<and>
      chunkTargets (BeginChunk new_BitReader 0) = chunkTargets r' @ [ActualPosition r']) \<and>
   (\<exists>vs r''. run new_BitReader [OpBeginChunk 0, OpEndChunk] = Some (Inr (vs, r'')) \<and>
      int (length (chunkTargets r'')) =
        int (length (chunkTargets new_BitReader)) +
        sum_list (map depth_change [OpBeginChunk 0, OpEndChunk]) \<and>
      0 \<le> sum_list (map depth_change [OpBeginChunk 0, OpEndChunk]))"
proof -
  have e: "chunkTargets new_BitReader = []" by (simp add: new_BitReader_def)
  have "is_ok (EndChunk (BeginChunk new_BitReader 0))" by code_simp
  then obtain r' where r': "EndChunk (BeginChunk new_BitReader 0) = Some (Inr r')"
    using is_okE by blast
  have "is_ok (run new_BitReader [OpBeginChunk 0, OpEndChunk])" by code_simp
  then obtain vs r'' where r'': "run new_BitReader [OpBeginChunk 0, OpEndChunk] = Some (Inr (vs, r''))"
    using is_okE by fastforce
  show ?thesis
    using e r' r''
      EndChunk_needs_open_chunk [of new_BitReader r' "[OpBeginChunk 0, OpEndChunk]" vs r'']
      EndChunk_needs_open_chunk [of "BeginChunk new_BitReader 0" r' "[]" "[]" "BeginChunk new_BitReader 0"]
    by simp
qed

lemma reach_Inv:
  assumes "rpos s = 0" "Open new_BitReader s n = Inr r0" "list_all valid_op cs"
    "run r0 cs = Some (Inr (vs, r))"
  shows "Inv s r"
proof -
  have "Inv s r0" using assms(2,1) by (rule Open_Inv)
  then have "step_post s r0 (run r0 cs)"
    using assms(3) by (intro run_Inv) (simp_all add: list_all_iff)
  then show ?thesis using assms(4) by (simp add: step_post_def)
qed

lemma opened_Open:
  "\<not> isl (Open new_BitReader s n) \<Longrightarrow> Open new_BitReader s n = Inr (opened s n)"
  by (cases "Open new_BitReader s n") (simp_all add: opened_def reopen_def)

lemma after_run:
  "is_ok (run r cs) \<Longrightarrow> \<exists>vs. run r cs = Some (Inr (vs, after r cs))"
  by (auto simp: is_ok_def after_def split: option.splits sum.splits)

text \<open>
  C6. \<open>ActualPosition\<close> is \<open>lazyPosition + offset\<close>. It is 0 after the first \<open>Open\<close> of a
  new reader. A refill that returns leaves it unchanged, moving \<open>bitsInBuffer\<close> bits from
  the offset to the lazy position. Every read that returns, in whatever state it was
  called, has increased it by exactly the width read (one bit, \<open>n\<close> bits, 8 bits a byte);
  so a run of reads increases it by the sum of the widths, and never decreases it when the
  widths are not negative.
\<close>

theorem ActualPosition_tracks_reads:
  "ActualPosition r = lazyPosition r + offset r \<and>
   (Open new_BitReader s n = Inr r0 \<longrightarrow> ActualPosition r0 = 0) \<and>
   (refillBuffer r = Inr r1 \<longrightarrow>
      ActualPosition r1 = ActualPosition r \<and>
      LazyPosition r1 = LazyPosition r + bitsInBuffer r \<and>
      offset r1 = offset r - bitsInBuffer r) \<and>
   (is_read c \<and> step r c = Some (Inr (v, r2)) \<longrightarrow>
      ActualPosition r2 = ActualPosition r + width c) \<and>
   (list_all is_read cs \<and> run r cs = Some (Inr (vs, r3)) \<longrightarrow>
      ActualPosition r3 = ActualPosition r + sum_list (map width cs)) \<and>
   (list_all is_read cs \<and> list_all valid_op cs \<and> run r cs = Some (Inr (vs, r3)) \<longrightarrow>
      ActualPosition r \<le> ActualPosition r3)"
proof (intro conjI impI)
  show "ActualPosition r = lazyPosition r + offset r" by (simp add: ActualPosition_def)
next
  assume "Open new_BitReader s n = Inr r0"
  then show "ActualPosition r0 = 0"
    by (auto simp: Open_def OpenWithBuffer_def ActualPosition_def new_BitReader_def Let_def
        split: if_splits prod.splits option.splits)
next
  assume a: "refillBuffer r = Inr r1"
  from refill_any [OF a] show "ActualPosition r1 = ActualPosition r"
    "LazyPosition r1 = LazyPosition r + bitsInBuffer r" "offset r1 = offset r - bitsInBuffer r"
    by (simp_all add: ActualPosition_def LazyPosition_def)
next
  assume "is_read c \<and> step r c = Some (Inr (v, r2))"
  then show "ActualPosition r2 = ActualPosition r + width c"
    using step_read_ok by blast
next
  assume "list_all is_read cs \<and> run r cs = Some (Inr (vs, r3))"
  then show "ActualPosition r3 = ActualPosition r + sum_list (map width cs)"
    using run_reads_ok by blast
next
  assume a: "list_all is_read cs \<and> list_all valid_op cs \<and> run r cs = Some (Inr (vs, r3))"
  have "0 \<le> width c" if "is_read c" "valid_op c" for c
    using that by (cases c) simp_all
  then have "0 \<le> sum_list (map width cs)"
    using a by (intro sum_list_nonneg) (auto simp: list_all_iff)
  moreover have "ActualPosition r3 = ActualPosition r + sum_list (map width cs)"
    using a run_reads_ok by blast
  ultimately show "ActualPosition r \<le> ActualPosition r3" by simp
qed

theorem ActualPosition_tracks_reads_witness:
  "Open new_BitReader (NewReader (bytes_upto 40)) 24 = Inr (opened (NewReader (bytes_upto 40)) 24) \<and>
   ActualPosition (opened (NewReader (bytes_upto 40)) 24) = 0 \<and>
   (\<exists>r1. refillBuffer (opened (NewReader (bytes_upto 40)) 24) = Inr r1 \<and>
      ActualPosition r1 = 0 \<and> LazyPosition r1 = 128 \<and> offset r1 = - 128) \<and>
   (\<exists>v r2. step (opened (NewReader (bytes_upto 40)) 24) (OpReadInt 32) = Some (Inr (v, r2)) \<and>
      ActualPosition r2 = 32) \<and>
   (\<exists>vs r3. run (opened (NewReader (bytes_upto 40)) 24) [OpReadBytes 20, OpReadBit] =
        Some (Inr (vs, r3)) \<and>
      ActualPosition r3 = 161 \<and> LazyPosition r3 = 128)"
proof -
  let ?w = "opened (NewReader (bytes_upto 40)) 24"
  have "\<not> isl (Open new_BitReader (NewReader (bytes_upto 40)) 24)" by code_simp
  then have o: "Open new_BitReader (NewReader (bytes_upto 40)) 24 = Inr ?w" by (rule opened_Open)
  have "\<not> isl (refillBuffer ?w)" by code_simp
  then obtain r1 where r1: "refillBuffer ?w = Inr r1" using Inr_projr by blast
  have "is_ok (step ?w (OpReadInt 32))" by code_simp
  then obtain v r2 where r2: "step ?w (OpReadInt 32) = Some (Inr (v, r2))"
    using is_okE by fastforce
  let ?cs = "[OpReadBytes 20, OpReadBit]"
  have "is_ok (run ?w ?cs)" by code_simp
  then obtain vs where r3: "run ?w ?cs = Some (Inr (vs, after ?w ?cs))"
    using after_run by blast
  have b: "bitsInBuffer ?w = 128" "lazyPosition ?w = 0" by code_simp+
  have l: "LazyPosition (after ?w ?cs) = 128" by code_simp
  note t = ActualPosition_tracks_reads [of ?w "NewReader (bytes_upto 40)" 24 ?w r1
      "OpReadInt 32" v r2 ?cs vs "after ?w ?cs"]
  show ?thesis using o r1 r2 r3 b l t by (auto simp: LazyPosition_def)
qed

lemma EndChunk_after_BeginChunk:
  assumes "Inv s r1" "chunkTargets r1 = ts @ [t]" "ActualPosition r1 \<le> t"
    "t \<le> 8 * int (length (content s))"
    "seekable s \<and> bitsInBuffer r1 - offset r1 + sledBits < t - ActualPosition r1 \<longrightarrow>
       t < 8 * int (length (content s))"
  shows "\<exists>r2. EndChunk r1 = Some (Inr r2) \<and> ActualPosition r2 = t \<and> chunkTargets r2 = ts \<and>
           Inv s r2"
proof -
  have ep: "end_post s r1 (EndChunk r1)" using assms(1) by (rule EndChunk_Inv)
  show ?thesis
  proof (cases "EndChunk r1")
    case None
    then show ?thesis using ep by (simp add: end_post_def)
  next
    case (Some x)
    show ?thesis
    proof (cases x)
      case (Inl e)
      then have False using ep Some assms(2-5) by (auto simp: end_post_def)
      then show ?thesis ..
    next
      case (Inr r2)
      then show ?thesis using ep Some assms(2) by (simp add: end_post_def)
    qed
  qed
qed

text \<open>
  C4. \<open>EndChunk\<close> panics with the chunk overrun exactly when there is an open chunk whose
  target lies before the current position, in every state of the reader; no other path of
  \<open>EndChunk\<close> raises it, and the result is then the panic, not a reader. On a reader
  opened on a source and driven by any calls with valid widths, \<open>BeginChunk(16)\<close>, one
  \<open>ReadBit\<close> and \<open>EndChunk\<close> return and leave the position 16 bits after the start of the
  chunk when the source holds these 16 bits. After \<open>BeginChunk(n)\<close>, reads that return and
  consumed more than \<open>n\<close> bits (17 after \<open>BeginChunk(16)\<close>) make \<open>EndChunk\<close> panic with
  the overrun.
\<close>

theorem EndChunk_overrun:
  "(EndChunk q = Some (Inl ChunkOverrun) \<longleftrightarrow>
      chunkTargets q \<noteq> [] \<and> last (chunkTargets q) < ActualPosition q) \<and>
   (rpos s = 0 \<and> Open new_BitReader s n = Inr r0 \<and> list_all valid_op cs \<and>
    run r0 cs = Some (Inr (vs, r)) \<and>
    ActualPosition r + 16 \<le> 8 * int (length (content s)) \<longrightarrow>
      (\<exists>b r1 r2. ReadBit (BeginChunk r 16) = Some (Inr (b, r1)) \<and>
         EndChunk r1 = Some (Inr r2) \<and>
         ActualPosition r2 = ActualPosition r + 16 \<and> chunkTargets r2 = chunkTargets r)) \<and>
   (list_all is_read cs' \<and> k < sum_list (map width cs') \<and>
    run (BeginChunk q k) cs' = Some (Inr (vs', q')) \<longrightarrow>
      EndChunk q' = Some (Inl ChunkOverrun))"
proof (intro conjI impI)
  show "EndChunk q = Some (Inl ChunkOverrun) \<longleftrightarrow>
      chunkTargets q \<noteq> [] \<and> last (chunkTargets q) < ActualPosition q"
    by (rule EndChunk_overrun_iff)
next
  assume a: "rpos s = 0 \<and> Open new_BitReader s n = Inr r0 \<and> list_all valid_op cs \<and>
    run r0 cs = Some (Inr (vs, r)) \<and> ActualPosition r + 16 \<le> 8 * int (length (content s))"
  then have "Inv s r" using reach_Inv by blast
  let ?rb = "BeginChunk r 16"
  have ib: "Inv s ?rb" using \<open>Inv s r\<close> by (simp add: BeginChunk_def)
  have apb: "ActualPosition ?rb = ActualPosition r"
    by (simp add: BeginChunk_def ActualPosition_def)
  have ctb: "chunkTargets ?rb = chunkTargets r @ [ActualPosition r + 16]"
    by (simp add: BeginChunk_def push_def)
  from ReadBit_Inv [OF ib] a obtain b r1 where
    r1: "ReadBit ?rb = Some (Inr (b, r1))" "Inv s r1" "ActualPosition r1 = ActualPosition r + 1"
      "chunkTargets r1 = chunkTargets r @ [ActualPosition r + 16]"
    unfolding rd_post_def apb ctb by (auto split: option.splits sum.splits)
  have "0 \<le> bitsInBuffer r1" using r1(2) core_bounds(1) Inv_core by blast
  moreover have "offset r1 \<le> max (bitsInBuffer r1) 32" using r1(2) by (simp add: Inv_def)
  ultimately have ns: "\<not> bitsInBuffer r1 - offset r1 + 64 < ActualPosition r + 16 - ActualPosition r1"
    unfolding r1(3) by (simp add: max_def split: if_splits)
  from EndChunk_after_BeginChunk [OF r1(2) r1(4)] ns a r1(3)
  obtain r2 where "EndChunk r1 = Some (Inr r2)" "ActualPosition r2 = ActualPosition r + 16"
    "chunkTargets r2 = chunkTargets r"
    by auto
  with r1(1) show "\<exists>b r1 r2. ReadBit (BeginChunk r 16) = Some (Inr (b, r1)) \<and>
         EndChunk r1 = Some (Inr r2) \<and>
         ActualPosition r2 = ActualPosition r + 16 \<and> chunkTargets r2 = chunkTargets r"
    by blast
next
  assume a: "list_all is_read cs' \<and> k < sum_list (map width cs') \<and>
    run (BeginChunk q k) cs' = Some (Inr (vs', q'))"
  then have "ActualPosition q' = ActualPosition (BeginChunk q k) + sum_list (map width cs')"
    "chunkTargets q' = chunkTargets (BeginChunk q k)"
    using run_reads_ok by blast+
  then have "chunkTargets q' \<noteq> [] \<and> last (chunkTargets q') < ActualPosition q'"
    using a by (simp add: BeginChunk_def push_def ActualPosition_def)
  then show "EndChunk q' = Some (Inl ChunkOverrun)"
    by (simp add: EndChunk_overrun_iff)
qed

theorem EndChunk_overrun_witness:
  "rpos (NewReader (bytes_upto 40)) = 0 \<and>
   Open new_BitReader (NewReader (bytes_upto 40)) 24 = Inr (opened (NewReader (bytes_upto 40)) 24) \<and>
   list_all valid_op [OpReadInt 7] \<and>
   (\<exists>vs r. run (opened (NewReader (bytes_upto 40)) 24) [OpReadInt 7] = Some (Inr (vs, r)) \<and>
      ActualPosition r = 7 \<and>
      (\<exists>b r1 r2. ReadBit (BeginChunk r 16) = Some (Inr (b, r1)) \<and>
         EndChunk r1 = Some (Inr r2) \<and> ActualPosition r2 = 23 \<and> chunkTargets r2 = chunkTargets r) \<and>
      (\<exists>vs' q'. run (BeginChunk r 16) (replicate 17 OpReadBit) = Some (Inr (vs', q')) \<and>
         chunkTargets q' \<noteq> [] \<and> last (chunkTargets q') < ActualPosition q' \<and>
         EndChunk q' = Some (Inl ChunkOverrun)))"
proof -
  let ?s = "NewReader (bytes_upto 40)"
  let ?w = "opened ?s 24"
  let ?r = "after ?w [OpReadInt 7]"
  let ?cs' = "replicate 17 OpReadBit"
  let ?q' = "after (BeginChunk ?r 16) ?cs'"
  have rp: "rpos ?s = 0" by (simp add: NewReader_def)
  have "\<not> isl (Open new_BitReader ?s 24)" by code_simp
  then have o: "Open new_BitReader ?s 24 = Inr ?w" by (rule opened_Open)
  have "is_ok (run ?w [OpReadInt 7])" by code_simp
  then obtain vs where r: "run ?w [OpReadInt 7] = Some (Inr (vs, ?r))"
    using after_run by blast
  have ap: "ActualPosition ?r = 7" by code_simp
  have len: "ActualPosition ?r + 16 \<le> 8 * int (length (content ?s))" by code_simp
  have "is_ok (run (BeginChunk ?r 16) ?cs')" by code_simp
  then obtain vs' where q': "run (BeginChunk ?r 16) ?cs' = Some (Inr (vs', ?q'))"
    using after_run by blast
  have rd: "list_all is_read ?cs'" "(16::int) < sum_list (map width ?cs')" by code_simp+
  note t = EndChunk_overrun [where q = ?r and s = ?s and n = 24 and ?r0.0 = ?w
      and cs = "[OpReadInt 7]" and vs = vs and r = ?r and cs' = ?cs' and k = 16 and vs' = vs'
      and q' = ?q']
  note t' = EndChunk_overrun [where q = ?q']
  from t rp o r len have
    "\<exists>b r1 r2. ReadBit (BeginChunk ?r 16) = Some (Inr (b, r1)) \<and>
         EndChunk r1 = Some (Inr r2) \<and> ActualPosition r2 = ActualPosition ?r + 16 \<and>
         chunkTargets r2 = chunkTargets ?r"
    by simp
  moreover from t rd q' have e: "EndChunk ?q' = Some (Inl ChunkOverrun)" by blast
  moreover from t' e have "chunkTargets ?q' \<noteq> [] \<and> last (chunkTargets ?q') < ActualPosition ?q'"
    by blast
  ultimately show ?thesis using rp o r q' ap by auto
qed

text \<open>
  C1, as the code has it. On a reader opened on a source and driven by any calls with
  valid widths, \<open>BeginChunk(N)\<close> with \<open>N > 0\<close> followed at once by \<open>EndChunk\<close> returns,
  without the panic of the final position check, and leaves the position exactly \<open>N\<close> bits
  further and the stack of targets as before, for a source that seeks and for one that
  does not, for any \<open>N\<close>, however many buffers long, provided the source holds these \<open>N\<close>
  bits, and provided the chunk ends before the end of the source when \<open>Skip\<close> takes its
  seeking path.
\<close>

theorem EndChunk_skips_whole_chunk:
  assumes "rpos s = 0" "Open new_BitReader s n = Inr r0" "list_all valid_op cs"
    "run r0 cs = Some (Inr (vs, r))" "0 < N"
    "ActualPosition r + N \<le> 8 * int (length (content s))"
    "seekable s \<and> bitsInBuffer r - offset r + sledBits < N \<longrightarrow>
       ActualPosition r + N < 8 * int (length (content s))"
  shows "\<exists>r'. EndChunk (BeginChunk r N) = Some (Inr r') \<and>
           ActualPosition r' = ActualPosition r + N \<and> chunkTargets r' = chunkTargets r"
proof -
  have "Inv s r" using assms(1-4) by (rule reach_Inv)
  let ?rb = "BeginChunk r N"
  have ib: "Inv s ?rb" using \<open>Inv s r\<close> by (simp add: BeginChunk_def)
  have apb: "ActualPosition ?rb = ActualPosition r"
    by (simp add: BeginChunk_def ActualPosition_def)
  have ctb: "chunkTargets ?rb = chunkTargets r @ [ActualPosition r + N]"
    by (simp add: BeginChunk_def push_def)
  have f: "bitsInBuffer ?rb = bitsInBuffer r" "offset ?rb = offset r"
    by (simp_all add: BeginChunk_def)
  from EndChunk_after_BeginChunk [OF ib ctb] assms(5-7)
  show ?thesis unfolding apb f by auto
qed

theorem EndChunk_skips_whole_chunk_witness:
  "rpos (NewReader (bytes_upto 255)) = 0 \<and>
   Open new_BitReader (NewReader (bytes_upto 255)) 32 =
     Inr (opened (NewReader (bytes_upto 255)) 32) \<and>
   list_all valid_op [OpReadInt 2] \<and>
   (\<exists>vs r. run (opened (NewReader (bytes_upto 255)) 32) [OpReadInt 2] = Some (Inr (vs, r)) \<and>
      ActualPosition r = 2 \<and> seekable (NewReader (bytes_upto 255)) \<and>
      bitsInBuffer r - offset r + sledBits < 256 \<and>
      ActualPosition r + 256 < 8 * int (length (content (NewReader (bytes_upto 255)))) \<and>
      (\<exists>r'. EndChunk (BeginChunk r 256) = Some (Inr r') \<and> ActualPosition r' = 258 \<and>
         chunkTargets r' = chunkTargets r))"
proof -
  let ?s = "NewReader (bytes_upto 255)"
  let ?w = "opened ?s 32"
  let ?r = "after ?w [OpReadInt 2]"
  have rp: "rpos ?s = 0" by (simp add: NewReader_def)
  have "\<not> isl (Open new_BitReader ?s 32)" by code_simp
  then have o: "Open new_BitReader ?s 32 = Inr ?w" by (rule opened_Open)
  have v: "list_all valid_op [OpReadInt 2]" by simp
  have "is_ok (run ?w [OpReadInt 2])" by code_simp
  then obtain vs where r: "run ?w [OpReadInt 2] = Some (Inr (vs, ?r))"
    using after_run by blast
  have ap: "ActualPosition ?r = 2" by code_simp
  have sk: "seekable ?s" by (simp add: NewReader_def)
  have bb: "bitsInBuffer ?r - offset ?r + sledBits < 256" by code_simp
  have len: "ActualPosition ?r + 256 < 8 * int (length (content ?s))" by code_simp
  from EndChunk_skips_whole_chunk [OF rp o v r, of 256] len
  have "\<exists>r'. EndChunk (BeginChunk ?r 256) = Some (Inr r') \<and>
           ActualPosition r' = ActualPosition ?r + 256 \<and> chunkTargets r' = chunkTargets ?r"
    by simp
  then show ?thesis using rp o v r ap sk bb len by auto
qed

text \<open>
  The claim as stated fails where the source is shorter than the chunk: on 32 bytes behind
  a source that does not seek, ending a chunk of 1000 bits panics with the unexpected end.
\<close>

theorem EndChunk_skips_whole_chunk_counterexample:
  "Open new_BitReader (OnlyReader (NewReader (bytes_upto 32))) 24 =
     Inr (opened (OnlyReader (NewReader (bytes_upto 32))) 24) \<and>
   EndChunk (BeginChunk (opened (OnlyReader (NewReader (bytes_upto 32))) 24) 1000) =
     Some (Inl UnexpectedEnd)"
proof -
  have "\<not> isl (Open new_BitReader (OnlyReader (NewReader (bytes_upto 32))) 24)" by code_simp
  then have "Open new_BitReader (OnlyReader (NewReader (bytes_upto 32))) 24 =
     Inr (opened (OnlyReader (NewReader (bytes_upto 32))) 24)" by (rule opened_Open)
  moreover have "EndChunk (BeginChunk (opened (OnlyReader (NewReader (bytes_upto 32))) 24) 1000) =
     Some (Inl UnexpectedEnd)" by code_simp
  ultimately show ?thesis by simp
qed

text \<open>
  C8. On a reader opened on a source, any sequence of calls with valid widths (at most 32
  bits for the integer reads, at most 8 for \<open>ReadBitsToByte\<close>, no negative count) runs to
  a result, and the result is never the panic of an index or a slice outside the buffer:
  the 8-byte loads of \<open>ReadInt\<close> and \<open>ReadSignedInt\<close>, the byte reads, the slice of
  \<open>ReadBytesInto\<close> and the copy of the sled in \<open>refillBuffer\<close> all stay inside \<open>buffer\<close>,
  also in a run that ends with the panic of reading past the end of the source.
\<close>

theorem decode_stays_inside_buffer:
  assumes "rpos s = 0" "Open new_BitReader s n = Inr r0" "list_all valid_op cs"
  shows "\<exists>x. run r0 cs = Some x \<and> x \<noteq> Inl IndexOutOfRange"
proof -
  have "Inv s r0" using assms(2,1) by (rule Open_Inv)
  then have "step_post s r0 (run r0 cs)"
    using assms(3) by (intro run_Inv) (simp_all add: list_all_iff)
  then show ?thesis
    by (auto simp: step_post_def split: option.splits sum.splits)
qed

theorem decode_stays_inside_buffer_witness:
  "rpos (NewReader (bytes_upto 40)) = 0 \<and>
   Open new_BitReader (NewReader (bytes_upto 40)) 24 = Inr (opened (NewReader (bytes_upto 40)) 24) \<and>
   list_all valid_op
     [OpReadBit, OpReadInt 32, OpReadSignedInt 32, OpReadBytes 20, OpReadBits 13, OpSkip 70,
      OpReadInt 32] \<and>
   (\<exists>x. run (opened (NewReader (bytes_upto 40)) 24)
      [OpReadBit, OpReadInt 32, OpReadSignedInt 32, OpReadBytes 20, OpReadBits 13, OpSkip 70,
       OpReadInt 32] = Some x \<and> x \<noteq> Inl IndexOutOfRange)"
proof -
  let ?s = "NewReader (bytes_upto 40)"
  let ?cs = "[OpReadBit, OpReadInt 32, OpReadSignedInt 32, OpReadBytes 20, OpReadBits 13,
    OpSkip 70, OpReadInt 32]"
  have rp: "rpos ?s = 0" by (simp add: NewReader_def)
  have "\<not> isl (Open new_BitReader ?s 24)" by code_simp
  then have o: "Open new_BitReader ?s 24 = Inr (opened ?s 24)" by (rule opened_Open)
  have v: "list_all valid_op ?cs" by simp
  from decode_stays_inside_buffer [OF rp o v] show ?thesis using rp o v by simp
qed

lemma core_window:
  assumes "Inv s r" "ActualPosition r < 8 * int (length (content s))"
  shows "buffer r ! nat (offset r div 8) = content s ! nat (ActualPosition r div 8)"
proof -
  from assms(1) have c: "core s r" and o: "0 \<le> offset r" "offset r \<le> max (bitsInBuffer r) 32"
    by (simp_all add: Inv_def)
  from c obtain u base k P m where
    u: "underlying r = Some u" "content u = content s" "seekable u = seekable s"
       "rpos u = int P" "P \<le> length (content s)"
    and pos: "lazyPosition r = 8 * int base" "bitsInBuffer r = 8 * int k"
    and len: "length (buffer r) = 8 * m" "3 \<le> m" "k + 8 \<le> length (buffer r)"
    and cont: "\<forall>i. base + i < P \<longrightarrow> buffer r ! i = content s ! (base + i)"
    and mode0: "(if endReached r
         then P = length (content s) \<and> k = 8 \<and>
              (base + 8 = length (content s) \<or> base = length (content s))
         else (base + k + 8 = P \<and> (k + 8 = length (buffer r) \<or> P = length (content s))) \<or>
              (base + k = P \<and> P = length (content s) \<and> k \<le> 8))"
    unfolding core_def by blast
  define i where "i = nat (offset r div 8)"
  have i: "offset r div 8 = int i" using o by (simp add: i_def)
  have oi: "8 * int i \<le> offset r" "offset r < 8 * int i + 8" using i by presburger+
  have ap: "ActualPosition r div 8 = int (base + i)"
    unfolding ActualPosition_def pos using i by simp
  have lt: "8 * int base + offset r < 8 * int (length (content s))"
    using assms(2) unfolding ActualPosition_def pos .
  have "base + i < P"
  proof (cases "endReached r")
    case True
    then have "P = length (content s)" using mode0 by simp
    then show ?thesis using lt oi by linarith
  next
    case False
    then consider "base + k + 8 = P" | "base + k = P" "P = length (content s)"
      using mode0 by auto
    then show ?thesis
    proof cases
      case 1
      have "offset r \<le> 8 * int k \<or> offset r \<le> 32" using o pos by (simp add: max_def split: if_splits)
      then show ?thesis using 1 oi by linarith
    next
      case 2
      then show ?thesis using lt oi by linarith
    qed
  qed
  then have "buffer r ! i = content s ! (base + i)" using cont by blast
  then show ?thesis unfolding ap i_def [symmetric] by (simp add: nat_int_add)
qed

lemma ReadBit_value:
  assumes "Inv s r" "ActualPosition r < 8 * int (length (content s))"
  shows "\<exists>r'. ReadBit r =
             Some (Inr (bit (content s ! nat (ActualPosition r div 8)) (nat (ActualPosition r mod 8)), r')) \<and>
           Inv s r' \<and> ActualPosition r' = ActualPosition r + 1"
proof -
  from assms(1) have c: "core s r" by (simp add: Inv_def)
  have m: "ActualPosition r mod 8 = offset r mod 8"
    using core_bounds(4) [OF c] c unfolding ActualPosition_def core_def by auto
  have ap: "adv_post s r 1 (advance r 1)"
    using assms(1) by (intro advance_Inv) (simp_all add: Inv_def)
  then obtain r' where r': "advance r 1 = Some (Inr r')" "Inv s r'"
    "ActualPosition r' = ActualPosition r + 1"
    using assms(2) by (auto simp: adv_post_def split: option.splits sum.splits)
  have "ReadBit r = Some (Inr (bit (buffer r ! nat (offset r div 8)) (nat (offset r mod 8)), r'))"
    using Inv_index [OF assms(1)] r'(1) by (simp add: ReadBit_def Let_def returning_def)
  then show ?thesis using r'(2,3) core_window [OF assms] m by simp
qed

lemma ReadBits_values:
  assumes "Inv s r" "ActualPosition r + int k \<le> 8 * int (length (content s))"
  shows "\<exists>r'. run r (replicate k OpReadBit) =
             Some (Inr (map (\<lambda>i. VBool (bit (content s ! nat ((ActualPosition r + int i) div 8))
                                         (nat ((ActualPosition r + int i) mod 8)))) [0..<k], r')) \<and>
           Inv s r'"
  using assms
proof (induction k arbitrary: r)
  case 0
  then show ?case by simp
next
  case (Suc k)
  from ReadBit_value [OF Suc.prems(1)] Suc.prems(2) obtain r1 where
    r1: "ReadBit r = Some (Inr (bit (content s ! nat (ActualPosition r div 8))
            (nat (ActualPosition r mod 8)), r1))" "Inv s r1"
      "ActualPosition r1 = ActualPosition r + 1"
    by auto
  from Suc.IH [OF r1(2)] Suc.prems(2) r1(3) obtain r' where
    r': "run r1 (replicate k OpReadBit) =
           Some (Inr (map (\<lambda>i. VBool (bit (content s ! nat ((ActualPosition r1 + int i) div 8))
                                         (nat ((ActualPosition r1 + int i) mod 8)))) [0..<k], r'))"
      "Inv s r'"
    by auto
  have "map (\<lambda>i. VBool (bit (content s ! nat ((ActualPosition r + int i) div 8))
              (nat ((ActualPosition r + int i) mod 8)))) [0..<Suc k] =
        VBool (bit (content s ! nat (ActualPosition r div 8)) (nat (ActualPosition r mod 8))) #
        map (\<lambda>i. VBool (bit (content s ! nat ((ActualPosition r1 + int i) div 8))
              (nat ((ActualPosition r1 + int i) mod 8)))) [0..<k]"
    unfolding r1(3) by (simp add: upt_rec [of 0 "Suc k"] map_Suc_upt [symmetric] ac_simps del: upt_Suc)
  then show ?case using r1(1) r'
    by (simp add: tagged_def del: upt_Suc)
qed

lemma byte_of_bits:
  fixes w :: byte
  shows "horner_sum of_bool 2 (map (bit w) [0..<8]) = w"
    "(\<Sum>i<8. of_bool (map (bit w) [0..<8] ! i) * 2 ^ i) = unat w"
proof -
  have "horner_sum of_bool 2 (map (bit w) [0..<8]) = take_bit 8 w"
    by (rule horner_sum_bit_eq_take_bit)
  then show "horner_sum of_bool 2 (map (bit w) [0..<8]) = w"
    using take_bit_length_eq [of w] by simp
  have "horner_sum of_bool 2 (map (bit (unat w)) [0..<8]) = take_bit 8 (unat w)"
    by (rule horner_sum_bit_eq_take_bit)
  also have "take_bit 8 (unat w) = unat w"
  proof (rule take_bit_nat_eq_self)
    show "unat w < 2 ^ 8" using unsigned_less [of w] by simp
  qed
  finally have h: "horner_sum of_bool 2 (map (bit (unat w)) [0..<8]) = unat w" .
  have m: "map (bit (unat w)) [0..<8] = map (bit w) [0..<8]"
    by (rule map_cong [OF refl]) (simp add: bit_unsigned_iff)
  have "length (map (bit w) [0..<8]) = 8" by simp
  with h show "(\<Sum>i<8. of_bool (map (bit w) [0..<8] ! i) * 2 ^ i) = unat w"
    unfolding m horner_sum_eq_sum atLeast0LessThan by (simp only:)
qed

text \<open>
  C7. On a reader opened on a source and driven by any calls with valid widths, at a
  position that is the start of byte \<open>j\<close> of the source, eight \<open>ReadBit\<close> calls return the
  bits \<open>b0, \<dots>, b7\<close> of that byte, least significant first: the sum of \<open>b_i * 2 ^ i\<close> is
  the byte, which is also the byte put together again with \<open>b0\<close> as the lowest bit.
\<close>

theorem ReadBit_least_significant_first:
  assumes "rpos s = 0" "Open new_BitReader s n = Inr r0" "list_all valid_op cs"
    "run r0 cs = Some (Inr (vs, r))"
    "ActualPosition r = 8 * int j" "j < length (content s)"
  shows "\<exists>bs r'. run r (replicate 8 OpReadBit) = Some (Inr (map VBool bs, r')) \<and>
           length bs = 8 \<and>
           (\<Sum>i<8. of_bool (bs ! i) * 2 ^ i) = unat (content s ! j) \<and>
           horner_sum of_bool 2 bs = content s ! j"
proof -
  have i: "Inv s r" using assms(1-4) by (rule reach_Inv)
  let ?w = "content s ! j"
  have "ActualPosition r + int 8 \<le> 8 * int (length (content s))"
    using assms(5,6) by simp
  from ReadBits_values [OF i this] obtain r' where
    r': "run r (replicate 8 OpReadBit) =
           Some (Inr (map (\<lambda>i. VBool (bit (content s ! nat ((ActualPosition r + int i) div 8))
                                         (nat ((ActualPosition r + int i) mod 8)))) [0..<8], r'))"
    by blast
  have "map (\<lambda>i. VBool (bit (content s ! nat ((ActualPosition r + int i) div 8))
              (nat ((ActualPosition r + int i) mod 8)))) [0..<8] =
        map VBool (map (bit ?w) [0..<8])"
    unfolding assms(5) map_map
  proof (rule map_cong [OF refl])
    fix i assume "i \<in> set [0..<8]"
    then have "i < 8" by simp
    then have "(8 * int j + int i) div 8 = int j" "(8 * int j + int i) mod 8 = int i"
      by simp_all
    then show "VBool (bit (content s ! nat ((8 * int j + int i) div 8))
         (nat ((8 * int j + int i) mod 8))) = (VBool \<circ> bit ?w) i"
      by simp
  qed
  with r' have "run r (replicate 8 OpReadBit) = Some (Inr (map VBool (map (bit ?w) [0..<8]), r'))"
    by (simp only:)
  moreover have "length (map (bit ?w) [0..<8]) = 8" by simp
  ultimately show ?thesis using byte_of_bits [of ?w] by blast
qed

theorem ReadBit_least_significant_first_witness:
  "rpos (NewReader (bytes_upto 40)) = 0 \<and>
   Open new_BitReader (NewReader (bytes_upto 40)) 24 = Inr (opened (NewReader (bytes_upto 40)) 24) \<and>
   list_all valid_op [OpReadBytes 19] \<and>
   (\<exists>vs r. run (opened (NewReader (bytes_upto 40)) 24) [OpReadBytes 19] = Some (Inr (vs, r)) \<and>
      ActualPosition r = 8 * int 19 \<and> 19 < length (content (NewReader (bytes_upto 40))) \<and>
      content (NewReader (bytes_upto 40)) ! 19 = 19 \<and>
      (\<exists>bs r'. run r (replicate 8 OpReadBit) = Some (Inr (map VBool bs, r')) \<and>
         length bs = 8 \<and> (\<Sum>i<8. of_bool (bs ! i) * 2 ^ i) = (19::nat) \<and>
         horner_sum of_bool 2 bs = (19::byte)))"
proof -
  let ?s = "NewReader (bytes_upto 40)"
  let ?w = "opened ?s 24"
  let ?r = "after ?w [OpReadBytes 19]"
  have rp: "rpos ?s = 0" by (simp add: NewReader_def)
  have "\<not> isl (Open new_BitReader ?s 24)" by code_simp
  then have o: "Open new_BitReader ?s 24 = Inr ?w" by (rule opened_Open)
  have v: "list_all valid_op [OpReadBytes 19]" by simp
  have "is_ok (run ?w [OpReadBytes 19])" by code_simp
  then obtain vs where r: "run ?w [OpReadBytes 19] = Some (Inr (vs, ?r))"
    using after_run by blast
  have ap: "ActualPosition ?r = 8 * int 19" by code_simp
  have j: "19 < length (content ?s)" by code_simp
  have c: "content ?s ! 19 = 19" by code_simp
  from ReadBit_least_significant_first [OF rp o v r ap j]
  show ?thesis using rp o v r ap j c by (auto simp del: replicate.simps upt_Suc)
qed

text \<open>
  C2. \<open>Close\<close> on a reader whose source is closable closes the source and returns at once:
  the source stays attached and no counter is reset. A reader that read one byte of
  \<open>ab\<close>, was closed and is opened again on a fresh source with the same bytes starts at
  position 8 and reads \<open>b\<close>, where the first open started at position 0 and read \<open>a\<close>.
  With a source that is not closable the same calls start at 0 and read \<open>a\<close> again.
\<close>

theorem Close_keeps_counters_of_closable_source:
  "results (opened (NopCloser (NewReader [0x61, 0x62])) 32) [OpActualPosition, OpReadSingleByte] =
     Some (Inr [VInt 0, VByte 0x61]) \<and>
   results
     (reopen (Close (after (opened (NopCloser (NewReader [0x61, 0x62])) 32) [OpReadSingleByte]))
        (NopCloser (NewReader [0x61, 0x62])) 32)
     [OpActualPosition, OpReadSingleByte] =
     Some (Inr [VInt 8, VByte 0x62]) \<and>
   offset (Close (after (opened (NopCloser (NewReader [0x61, 0x62])) 32) [OpReadSingleByte])) = 8 \<and>
   map_option closed
     (underlying (Close (after (opened (NopCloser (NewReader [0x61, 0x62])) 32) [OpReadSingleByte]))) =
     Some True \<and>
   results
     (reopen (Close (after (opened (OnlyReader (NewReader [0x61, 0x62])) 32) [OpReadSingleByte]))
        (OnlyReader (NewReader [0x61, 0x62])) 32)
     [OpActualPosition, OpReadSingleByte] =
     Some (Inr [VInt 0, VByte 0x61])"
  by code_simp

text \<open>
  C3. The buffer size shows through \<open>EndChunk\<close> on a source that seeks. On the 32 bytes
  \<open>0, \<dots>, 31\<close>, a chunk of 256 bits ends exactly at the end of the source: with a buffer
  of 24 bytes \<open>Skip\<close> seeks to the end, the read after the seek returns \<^verbatim>\<open>io.EOF\<close> and
  \<open>Skip\<close> panics with it; with a buffer of 40 bytes \<open>Skip\<close> advances through the buffer
  and the position is 256.
\<close>

theorem buffer_size_observable_when_seeking:
  "results (opened (NewReader (bytes_upto 32)) 24) [OpBeginChunk 256, OpEndChunk, OpActualPosition] =
     Some (Inl (UnderlyingIOError EOF)) \<and>
   results (opened (NewReader (bytes_upto 32)) 40) [OpBeginChunk 256, OpEndChunk, OpActualPosition] =
     Some (Inr [VUnit, VUnit, VInt 256]) \<and>
   results (opened (OnlyReader (NewReader (bytes_upto 32))) 24)
     [OpBeginChunk 256, OpEndChunk, OpActualPosition] =
     Some (Inr [VUnit, VUnit, VInt 256])"
  by code_simp

text \<open>
  C9. A reader opened on a source of fewer than eight bytes does not record that the source
  is exhausted, so the first refill past the end counts the sled as data: on the one byte
  \<open>0x61\<close>, nine \<open>ReadBit\<close> calls return, the ninth with a bit the source never held, and
  so do 72; the unexpected end is raised by the 73rd.
\<close>

theorem read_past_end_of_short_source:
  "results (opened (NewReader [0x61]) 32) (replicate 9 OpReadBit) =
     Some (Inr [VBool True, VBool False, VBool False, VBool False, VBool False,
                VBool True, VBool True, VBool False, VBool False]) \<and>
   results (opened (NewReader [0x61]) 32) (replicate 72 OpReadBit @ [OpActualPosition]) =
     Some (Inr (map VBool [True, False, False, False, False, True, True, False] @
                replicate 64 (VBool False) @ [VInt 72])) \<and>
   results (opened (NewReader [0x61]) 32) (replicate 73 OpReadBit) = Some (Inl UnexpectedEnd)"
  by code_simp

text \<open>
  C5. \<open>ReadSignedInt(32)\<close> on the little-endian bytes of \<open>0x7FFFFFFF\<close>, \<open>0x80000000\<close> and
  \<open>0\<close> returns 2147483647, -2147483648 and 0. For \<open>n = 0\<close> the result is not the
  value of \<open>ReadInt(0)\<close> read as signed: after one bit of the byte \<open>0x01\<close>, \<open>ReadInt(0)\<close>
  returns 0 and \<open>ReadSignedInt(0)\<close> returns -1, the bit before the position spread over
  the word by the arithmetic shift.
\<close>

theorem ReadSignedInt_of_no_bits:
  "results (opened (NewReader [0xff, 0xff, 0xff, 0x7f, 0, 0, 0, 0x80, 0, 0, 0, 0]) 32)
     [OpReadSignedInt 32, OpReadSignedInt 32, OpReadSignedInt 32] =
     Some (Inr [VInt 2147483647, VInt (- 2147483648), VInt 0]) \<and>
   results (opened (NewReader [0x01]) 32) [OpReadBit, OpReadInt 0, OpActualPosition] =
     Some (Inr [VBool True, VUint 0, VInt 1]) \<and>
   results (opened (NewReader [0x01]) 32) [OpReadBit, OpReadSignedInt 0, OpActualPosition] =
     Some (Inr [VBool True, VInt (- 1), VInt 1])"
  by code_simp

end
